theory Spec2Isabelle
  imports Complex_Main "HOL-Library.Multiset" "HOL-Library.Sublist" "HOL-Library.Log_Nat"
begin

section \<open>Data model of src/utils/atlasPacker.ts\<close>

text \<open>
  Widths, heights, coordinates, the page size and the padding are the integers of the
  spec's data model, with exact arithmetic. Field names carry a prefix per record, since
  several of the source's interfaces share the names x, y, width and height.
\<close>

record Rect =
  rect_x :: int
  rect_y :: int
  rect_width :: int
  rect_height :: int

text \<open>
  The declaration of OptimizationTask (../types) is not among the sources. The packer
  reads targetWidth and targetHeight only and carries the task through untouched.
  Modelled from the spec: an item is an opaque id with its two dimensions.
\<close>

record OptimizationTask =
  task_id :: string
  targetWidth :: int
  targetHeight :: int

record PackedRect =
  pr_x :: int
  pr_y :: int
  pr_w :: int
  pr_h :: int
  pr_task :: OptimizationTask

text \<open>
  The efficiency is the only quotient of the program, and JavaScript computes it in
  IEEE 754 doubles (binary64): a division and a multiplication, each rounded to the
  nearest double, ties to even. A finite double is the rational it denotes; a division
  by zero raises nothing and yields NaN (0/0) or an infinity, which are values of the
  model. The sign of zero is not kept. Integers are exact doubles up to 2^53; the
  operands of the division are taken in that range.
\<close>

datatype number = Num rat | NaN | PosInfinity | NegInfinity

text \<open>
  The binade of a positive rational: the e with 2^e <= a < 2^(e+1), from the bit
  lengths of numerator and denominator.
\<close>

definition ilog2 :: "rat \<Rightarrow> int" where
  "ilog2 a =
     (let e0 = bitlen (fst (quotient_of a)) - bitlen (snd (quotient_of a))
      in if 2 powi e0 \<le> a then e0 else e0 - 1)"

text \<open>Rounding to the nearest integer, a tie going to the even one.\<close>

definition round_half_even :: "rat \<Rightarrow> int" where
  "round_half_even y =
     (let f = \<lfloor>y\<rfloor>; d = y - of_int f
      in if d < 1 / 2 then f else if 1 / 2 < d then f + 1 else if even f then f else f + 1)"

text \<open>
  The double nearest to a rational. The spacing of the doubles around x is
  2^(e - 52), with e the binade of |x| and never below -1022 (the subnormal range);
  the multiple of the spacing nearest to |x| is taken, ties to even. A result of 2^1024
  or more is an infinity: that is a binade of 1024 or more, or the binade 1023 with the
  significand rounded up to 2^53.
\<close>

definition round_double :: "rat \<Rightarrow> number" where
  "round_double x =
     (if x = 0 then Num 0
      else
        (let a = \<bar>x\<bar>;
             e = max (ilog2 a) (- 1022);
             ulp = 2 powi (e - 52);
             n = round_half_even (a / ulp)
         in if 1024 \<le> e \<or> (e = 1023 \<and> 9007199254740992 \<le> n)
            then (if 0 < x then PosInfinity else NegInfinity)
            else Num (if 0 < x then of_int n * ulp else - (of_int n * ulp))))"

text \<open>The operators / and * of line 208, on numbers that are exact doubles.\<close>

fun js_divide :: "int \<Rightarrow> int \<Rightarrow> number" where
  "js_divide a b =
     (if b = 0 then (if a = 0 then NaN else if 0 < a then PosInfinity else NegInfinity)
      else round_double (of_int a / of_int b))"

fun js_times :: "number \<Rightarrow> rat \<Rightarrow> number" where
  "js_times (Num r) k = round_double (r * k)"
| "js_times NaN k = NaN"
| "js_times PosInfinity k = (if k = 0 then NaN else if 0 < k then PosInfinity else NegInfinity)"
| "js_times NegInfinity k = (if k = 0 then NaN else if 0 < k then NegInfinity else PosInfinity)"

record AtlasPage =
  page_id :: nat
  page_width :: int
  page_height :: int
  page_items :: "PackedRect list"
  page_efficiency :: number

record MaxRectsPacker =
  mp_width :: int
  mp_height :: int
  mp_padding :: int
  freeRects :: "Rect list"
  packedRects :: "PackedRect list"

section \<open>class MaxRectsPacker\<close>

definition new_MaxRectsPacker :: "int \<Rightarrow> int \<Rightarrow> int \<Rightarrow> MaxRectsPacker" where
  "new_MaxRectsPacker w h p =
     \<lparr>mp_width = w, mp_height = h, mp_padding = p,
      freeRects = [\<lparr>rect_x = 0, rect_y = 0, rect_width = w, rect_height = h\<rparr>],
      packedRects = []\<rparr>"

text \<open>
  findBestNode starts from bestScore = Number.MAX_VALUE, the largest finite double, which
  every leftover of integer rectangles is strictly below. The score is an option:
  None is Number.MAX_VALUE (no region taken yet), and any leftover is below it.
\<close>

definition score_less :: "int \<Rightarrow> int option \<Rightarrow> bool" where
  "score_less s best = (case best of None \<Rightarrow> True | Some b \<Rightarrow> s < b)"

fun findBestNode_loop :: "Rect list \<Rightarrow> int \<Rightarrow> int \<Rightarrow> int option \<times> Rect \<Rightarrow> int option \<times> Rect" where
  "findBestNode_loop [] w h best = best"
| "findBestNode_loop (free # rest) w h (bestScore, bestRect) =
     (if rect_width free \<ge> w \<and> rect_height free \<ge> h then
        (let leftoverHoriz = \<bar>rect_width free - w\<bar>;
             leftoverVert = \<bar>rect_height free - h\<bar>;
             shortSideFit = min leftoverHoriz leftoverVert
         in if score_less shortSideFit bestScore
            then findBestNode_loop rest w h
                   (Some shortSideFit,
                    \<lparr>rect_x = rect_x free, rect_y = rect_y free, rect_width = w, rect_height = h\<rparr>)
            else findBestNode_loop rest w h (bestScore, bestRect))
      else findBestNode_loop rest w h (bestScore, bestRect))"

definition findBestNode :: "Rect list \<Rightarrow> int \<Rightarrow> int \<Rightarrow> int option \<times> Rect" where
  "findBestNode frees w h =
     findBestNode_loop frees w h
       (None, \<lparr>rect_x = 0, rect_y = 0, rect_width = 0, rect_height = 0\<rparr>)"

definition isContained :: "Rect \<Rightarrow> Rect \<Rightarrow> bool" where
  "isContained a b \<longleftrightarrow>
     rect_x a \<ge> rect_x b \<and> rect_y a \<ge> rect_y b \<and>
     rect_x a + rect_width a \<le> rect_x b + rect_width b \<and>
     rect_y a + rect_height a \<le> rect_y b + rect_height b"

text \<open>The intersection test that opens splitFreeNode: True when the function returns false.\<close>

definition noIntersection :: "Rect \<Rightarrow> Rect \<Rightarrow> bool" where
  "noIntersection freeNode usedNode \<longleftrightarrow>
     rect_x usedNode \<ge> rect_x freeNode + rect_width freeNode \<or>
     rect_x usedNode + rect_width usedNode \<le> rect_x freeNode \<or>
     rect_y usedNode \<ge> rect_y freeNode + rect_height freeNode \<or>
     rect_y usedNode + rect_height usedNode \<le> rect_y freeNode"

text \<open>
  splitFreeNode returns its boolean and the nodes it pushed onto this.freeRects, in the
  order of the pushes (top, bottom, left, right).
\<close>

definition splitFreeNode :: "Rect \<Rightarrow> Rect \<Rightarrow> bool \<times> Rect list" where
  "splitFreeNode freeNode usedNode =
     (if noIntersection freeNode usedNode then (False, [])
      else
        (True,
         (if rect_x usedNode < rect_x freeNode + rect_width freeNode \<and>
             rect_x usedNode + rect_width usedNode > rect_x freeNode
          then
            (if rect_y usedNode > rect_y freeNode \<and>
                rect_y usedNode < rect_y freeNode + rect_height freeNode
             then [\<lparr>rect_x = rect_x freeNode, rect_y = rect_y freeNode,
                    rect_width = rect_width freeNode,
                    rect_height = rect_y usedNode - rect_y freeNode\<rparr>]
             else []) @
            (if rect_y usedNode + rect_height usedNode < rect_y freeNode + rect_height freeNode
             then [\<lparr>rect_x = rect_x freeNode,
                    rect_y = rect_y usedNode + rect_height usedNode,
                    rect_width = rect_width freeNode,
                    rect_height = rect_y freeNode + rect_height freeNode
                                  - (rect_y usedNode + rect_height usedNode)\<rparr>]
             else [])
          else []) @
         (if rect_y usedNode < rect_y freeNode + rect_height freeNode \<and>
             rect_y usedNode + rect_height usedNode > rect_y freeNode
          then
            (if rect_x usedNode > rect_x freeNode \<and>
                rect_x usedNode < rect_x freeNode + rect_width freeNode
             then [\<lparr>rect_x = rect_x freeNode, rect_y = rect_y freeNode,
                    rect_width = rect_x usedNode - rect_x freeNode,
                    rect_height = rect_height freeNode\<rparr>]
             else []) @
            (if rect_x usedNode + rect_width usedNode < rect_x freeNode + rect_width freeNode
             then [\<lparr>rect_x = rect_x usedNode + rect_width usedNode,
                    rect_y = rect_y freeNode,
                    rect_width = rect_x freeNode + rect_width freeNode
                                 - (rect_x usedNode + rect_width usedNode),
                    rect_height = rect_height freeNode\<rparr>]
             else [])
          else [])))"

text \<open>Array.prototype.splice(i, 1) on an index within the array.\<close>

definition splice1 :: "nat \<Rightarrow> 'a list \<Rightarrow> 'a list" where
  "splice1 i xs = take i xs @ drop (Suc i) xs"

lemma splitFreeNode_new_noIntersection:
  "n \<in> set (snd (splitFreeNode f u)) \<Longrightarrow> noIntersection n u"
  unfolding splitFreeNode_def noIntersection_def
  by (simp split: if_splits) (elim disjE conjE; simp)

lemma splitFreeNode_False: "\<not> fst (splitFreeNode f u) \<Longrightarrow> snd (splitFreeNode f u) = []"
  by (cases "noIntersection f u") (simp_all add: splitFreeNode_def)

lemma splitFreeNode_fst: "fst (splitFreeNode f u) \<longleftrightarrow> \<not> noIntersection f u"
  by (cases "noIntersection f u") (simp_all add: splitFreeNode_def)

text \<open>
  The loop of placeRect: i runs over this.freeRects while the array changes under it.
  A node that is split is spliced out and i stays (i-- then i++); the nodes pushed by
  splitFreeNode are at the end of the array when the splice happens.
\<close>

function placeRect_loop :: "nat \<Rightarrow> Rect list \<Rightarrow> Rect \<Rightarrow> Rect list" where
  "placeRect_loop i frees rect =
     (if i < length frees then
        (case splitFreeNode (frees ! i) rect of
           (True, pushed) \<Rightarrow> placeRect_loop i (splice1 i (frees @ pushed)) rect
         | (False, pushed) \<Rightarrow> placeRect_loop (Suc i) (frees @ pushed) rect)
      else frees)"
  by pat_completeness auto

text \<open>
  The loop ends: a pushed node never intersects the used rectangle, so each round either
  removes one intersecting node from the part still to scan or moves i forward.
\<close>

definition toSplit :: "nat \<Rightarrow> Rect list \<Rightarrow> Rect \<Rightarrow> nat" where
  "toSplit i frees rect = length (filter (\<lambda>f. \<not> noIntersection f rect) (drop i frees))"

lemma toSplit_splice:
  assumes "i < length frees" and "\<not> noIntersection (frees ! i) rect"
    and "\<forall>n \<in> set pushed. noIntersection n rect"
  shows "toSplit i (splice1 i (frees @ pushed)) rect < toSplit i frees rect"
proof -
  have d: "drop i frees = frees ! i # drop (Suc i) frees"
    using assms(1) by (simp add: Cons_nth_drop_Suc)
  have "drop i (splice1 i (frees @ pushed)) = drop (Suc i) frees @ pushed"
    using assms(1) by (simp add: splice1_def)
  moreover have "filter (\<lambda>f. \<not> noIntersection f rect) pushed = []"
    using assms(3) by (simp add: filter_empty_conv)
  ultimately show ?thesis
    using assms(2) by (simp add: toSplit_def d)
qed

lemma toSplit_Suc:
  assumes "i < length frees" and "noIntersection (frees ! i) rect"
  shows "toSplit (Suc i) frees rect = toSplit i frees rect"
proof -
  have "drop i frees = frees ! i # drop (Suc i) frees"
    using assms(1) by (simp add: Cons_nth_drop_Suc)
  then show ?thesis
    using assms(2) by (simp add: toSplit_def)
qed

termination placeRect_loop
proof (relation "measures [\<lambda>(i, frees, rect). toSplit i frees rect,
                           \<lambda>(i, frees, rect). length frees - i]", goal_cases)
  case 1
  show ?case by simp
next
  case (2 i frees rect b pushed)
  have "fst (splitFreeNode (frees ! i) rect)" and p: "pushed = snd (splitFreeNode (frees ! i) rect)"
    using 2(2,3) by (simp_all flip: 2(2))
  then have "\<not> noIntersection (frees ! i) rect"
    by (simp add: splitFreeNode_fst)
  moreover have "\<forall>n \<in> set pushed. noIntersection n rect"
    using p splitFreeNode_new_noIntersection by blast
  ultimately show ?case
    using 2(1) toSplit_splice by simp
next
  case (3 i frees rect b pushed)
  have nf: "\<not> fst (splitFreeNode (frees ! i) rect)" and p: "pushed = snd (splitFreeNode (frees ! i) rect)"
    using 3(2,3) by (simp_all flip: 3(2))
  then have e: "pushed = []"
    by (simp add: splitFreeNode_False)
  have "noIntersection (frees ! i) rect"
    using nf by (simp add: splitFreeNode_fst)
  then have "toSplit (Suc i) frees rect = toSplit i frees rect"
    using 3(1) by (rule toSplit_Suc[rotated])
  then show ?case
    using 3(1) e by simp
qed

text \<open>
  pruneFreeList: the two nested loops, with the array spliced under them. After the
  splice of i the inner loop is left and the outer one goes on at the same i (i-- then
  i++), so j restarts at i + 1; after the splice of j the inner loop goes on at the same j.
\<close>

function pruneFreeList_loop :: "nat \<Rightarrow> nat \<Rightarrow> Rect list \<Rightarrow> Rect list" where
  "pruneFreeList_loop i j frees =
     (if i < length frees then
        (if j < length frees then
           (if isContained (frees ! i) (frees ! j)
              then pruneFreeList_loop i (Suc i) (splice1 i frees)
            else if isContained (frees ! j) (frees ! i)
              then pruneFreeList_loop i j (splice1 j frees)
            else pruneFreeList_loop i (Suc j) frees)
         else pruneFreeList_loop (Suc i) (Suc (Suc i)) frees)
      else frees)"
  by pat_completeness auto

lemma length_splice1: "i < length xs \<Longrightarrow> length (splice1 i xs) < length xs"
  by (simp add: splice1_def)

termination pruneFreeList_loop
  by (relation "measures [\<lambda>(i, j, frees). length frees,
                          \<lambda>(i, j, frees). length frees - i,
                          \<lambda>(i, j, frees). length frees - j]")
     (auto simp: length_splice1)

definition pruneFreeList :: "MaxRectsPacker \<Rightarrow> MaxRectsPacker" where
  "pruneFreeList pk = pk\<lparr>freeRects := pruneFreeList_loop 0 1 (freeRects pk)\<rparr>"

definition placeRect :: "MaxRectsPacker \<Rightarrow> Rect \<Rightarrow> MaxRectsPacker" where
  "placeRect pk rect = pruneFreeList (pk\<lparr>freeRects := placeRect_loop 0 (freeRects pk) rect\<rparr>)"

text \<open>insert returns the PackedRect, or null (None), and the packer it has updated.\<close>

definition insertTask :: "MaxRectsPacker \<Rightarrow> OptimizationTask \<Rightarrow> PackedRect option \<times> MaxRectsPacker" where
  "insertTask pk task =
     (let requiredW = targetWidth task + mp_padding pk;
          requiredH = targetHeight task + mp_padding pk;
          bestNode = findBestNode (freeRects pk) requiredW requiredH
      in case fst bestNode of
           None \<Rightarrow> (None, pk)
         | Some score \<Rightarrow>
             (Some \<lparr>pr_x = rect_x (snd bestNode), pr_y = rect_y (snd bestNode),
                    pr_w = targetWidth task, pr_h = targetHeight task, pr_task = task\<rparr>,
              placeRect pk (snd bestNode)))"

section \<open>packAtlases\<close>

text \<open>
  The sort of line 176: Array.prototype.sort is stable, and the comparator
  b.targetHeight - a.targetHeight orders by descending height.
\<close>

definition sortedTasks :: "OptimizationTask list \<Rightarrow> OptimizationTask list" where
  "sortedTasks tasks = sort_key (\<lambda>t. - targetHeight t) tasks"

text \<open>The for loop over remaining (lines 189 to 202), for one page.\<close>

fun packPage :: "OptimizationTask list \<Rightarrow> int \<Rightarrow> MaxRectsPacker \<Rightarrow> PackedRect list \<Rightarrow>
    OptimizationTask list \<Rightarrow> PackedRect list \<times> OptimizationTask list" where
  "packPage [] maxSize packer pageItems didntFit = (pageItems, didntFit)"
| "packPage (task # rest) maxSize packer pageItems didntFit =
     (if targetWidth task > maxSize \<or> targetHeight task > maxSize
      then packPage rest maxSize packer pageItems didntFit
      else (case insertTask packer task of
              (Some rect, packer') \<Rightarrow> packPage rest maxSize packer' (pageItems @ [rect]) didntFit
            | (None, packer') \<Rightarrow> packPage rest maxSize packer' pageItems (didntFit @ [task])))"

text \<open>Lines 204 to 216: the page pushed after the pass, with its efficiency.\<close>

definition buildPage :: "nat \<Rightarrow> int \<Rightarrow> PackedRect list \<Rightarrow> AtlasPage" where
  "buildPage currentPageIndex maxSize pageItems =
     (let usedArea = foldl (\<lambda>a p. a + pr_w p * pr_h p) 0 pageItems;
          totalArea = maxSize * maxSize;
          efficiency = js_times (js_divide usedArea totalArea) 100
      in \<lparr>page_id = currentPageIndex, page_width = maxSize, page_height = maxSize,
          page_items = pageItems, page_efficiency = efficiency\<rparr>)"

lemma packPage_lengths:
  "packPage tasks maxSize packer pageItems didntFit = (pageItems', didntFit') \<Longrightarrow>
   length pageItems' + length didntFit' \<le> length pageItems + length didntFit + length tasks"
proof (induction tasks arbitrary: packer pageItems didntFit)
  case Nil
  then show ?case by simp
next
  case (Cons task rest)
  show ?case
  proof (cases "targetWidth task > maxSize \<or> targetHeight task > maxSize")
    case True
    then have "packPage rest maxSize packer pageItems didntFit = (pageItems', didntFit')"
      using Cons.prems by simp
    from Cons.IH[OF this] show ?thesis by simp
  next
    case False
    obtain r packer' where ins: "insertTask packer task = (r, packer')"
      by (cases "insertTask packer task")
    show ?thesis
    proof (cases r)
      case None
      then have "packPage rest maxSize packer' pageItems (didntFit @ [task]) = (pageItems', didntFit')"
        using Cons.prems False ins by simp
      from Cons.IH[OF this] show ?thesis by simp
    next
      case (Some rect)
      then have "packPage rest maxSize packer' (pageItems @ [rect]) didntFit = (pageItems', didntFit')"
        using Cons.prems False ins by simp
      from Cons.IH[OF this] show ?thesis by simp
    qed
  qed
qed

text \<open>The while loop of lines 184 to 227; the break of line 223 returns the pages.\<close>

function packAtlases_loop :: "OptimizationTask list \<Rightarrow> int \<Rightarrow> int \<Rightarrow> AtlasPage list \<Rightarrow> nat \<Rightarrow>
    AtlasPage list" where
  "packAtlases_loop remaining maxSize padding pages currentPageIndex =
     (if length remaining > 0 then
        (let pass = packPage remaining maxSize (new_MaxRectsPacker maxSize maxSize padding) [] [];
             pageItems = fst pass;
             didntFit = snd pass;
             pages' = pages @ [buildPage currentPageIndex maxSize pageItems]
         in if length pageItems = 0 \<and> length didntFit = length remaining then pages'
            else packAtlases_loop didntFit maxSize padding pages' (Suc currentPageIndex))
      else pages)"
  by pat_completeness auto

termination packAtlases_loop
proof (relation "measure (\<lambda>(remaining, maxSize, padding, pages, idx). length remaining)", goal_cases)
  case 1
  show ?case by simp
next
  case (2 remaining maxSize padding pages idx pass pageItems didntFit pages')
  have "packPage remaining maxSize (new_MaxRectsPacker maxSize maxSize padding) [] []
          = (pageItems, didntFit)"
    using 2 by simp
  from packPage_lengths[OF this] have le: "length pageItems + length didntFit \<le> length remaining"
    by simp
  have "length pageItems \<noteq> 0 \<or> length didntFit \<noteq> length remaining"
    using 2(6) by blast
  with le have "length didntFit < length remaining"
    by arith
  then show ?case by simp
qed

definition packAtlases :: "OptimizationTask list \<Rightarrow> int \<Rightarrow> int \<Rightarrow> AtlasPage list" where
  "packAtlases tasks maxSize padding = packAtlases_loop (sortedTasks tasks) maxSize padding [] 0"

section \<open>packer.worker.ts\<close>

text \<open>
  A call either returns or throws; a thrown value is kept as the string String(err)
  makes of it. packAtlases has no throw statement and validates nothing, so a call of it
  returns its pages.
\<close>

datatype 'a outcome = Returned 'a | Thrown string

definition packAtlases_call :: "OptimizationTask list \<Rightarrow> int \<Rightarrow> int \<Rightarrow> AtlasPage list outcome" where
  "packAtlases_call tasks maxSize padding = Returned (packAtlases tasks maxSize padding)"

record PackerMessage =
  msg_tasks :: "OptimizationTask list"
  msg_maxSize :: int
  msg_padding :: int

datatype WorkerResponse = Success "AtlasPage list" | Failure string

text \<open>
  self.onmessage, over the packing function it calls: the outcome of the handler itself
  and the messages it posts, in order. The try block posts the success, the catch block
  posts the failure.
\<close>

definition onmessage_with ::
    "(OptimizationTask list \<Rightarrow> int \<Rightarrow> int \<Rightarrow> AtlasPage list outcome) \<Rightarrow> PackerMessage \<Rightarrow>
     unit outcome \<times> WorkerResponse list" where
  "onmessage_with pack e =
     (case pack (msg_tasks e) (msg_maxSize e) (msg_padding e) of
        Returned pages \<Rightarrow> (Returned (), [Success pages])
      | Thrown err \<Rightarrow> (Returned (), [Failure err]))"

definition onmessage :: "PackerMessage \<Rightarrow> unit outcome \<times> WorkerResponse list" where
  "onmessage e = onmessage_with packAtlases_call e"

section \<open>Notions used in the statements\<close>

text \<open>The test of line 191, and the pass over remaining for a fresh page.\<close>

definition oversized :: "int \<Rightarrow> OptimizationTask \<Rightarrow> bool" where
  "oversized maxSize task \<longleftrightarrow> targetWidth task > maxSize \<or> targetHeight task > maxSize"

definition passOf :: "OptimizationTask list \<Rightarrow> int \<Rightarrow> int \<Rightarrow> PackedRect list \<times> OptimizationTask list" where
  "passOf remaining maxSize padding =
     packPage remaining maxSize (new_MaxRectsPacker maxSize maxSize padding) [] []"

text \<open>
  The selection of step 3 in the spec's words: a region qualifies if both its width and
  height are at least the required footprint, and its score is the smaller leftover.
\<close>

definition qualifies :: "Rect \<Rightarrow> int \<Rightarrow> int \<Rightarrow> bool" where
  "qualifies region w h \<longleftrightarrow> rect_width region \<ge> w \<and> rect_height region \<ge> h"

definition bssf_score :: "Rect \<Rightarrow> int \<Rightarrow> int \<Rightarrow> int" where
  "bssf_score region w h = min \<bar>rect_width region - w\<bar> \<bar>rect_height region - h\<bar>"

definition usedRectAt :: "Rect \<Rightarrow> int \<Rightarrow> int \<Rightarrow> Rect" where
  "usedRectAt region w h =
     \<lparr>rect_x = rect_x region, rect_y = rect_y region, rect_width = w, rect_height = h\<rparr>"

text \<open>
  An item fits a page with its padding, and the tasks placed on a list of pages.
\<close>

definition fitsPadded :: "int \<Rightarrow> int \<Rightarrow> OptimizationTask \<Rightarrow> bool" where
  "fitsPadded maxSize padding t \<longleftrightarrow>
     targetWidth t + padding \<le> maxSize \<and> targetHeight t + padding \<le> maxSize"

definition placedTasks :: "AtlasPage list \<Rightarrow> OptimizationTask list" where
  "placedTasks pages = map pr_task (concat (map page_items pages))"

text \<open>
  The footprint a placement reserves, a rectangle on the page, and two placements that
  overlap (their interiors meet).
\<close>

definition withinPage :: "int \<Rightarrow> Rect \<Rightarrow> bool" where
  "withinPage maxSize f \<longleftrightarrow>
     0 \<le> rect_x f \<and> 0 \<le> rect_y f \<and>
     rect_x f + rect_width f \<le> maxSize \<and> rect_y f + rect_height f \<le> maxSize"

definition footprint :: "int \<Rightarrow> PackedRect \<Rightarrow> Rect" where
  "footprint padding r =
     \<lparr>rect_x = pr_x r, rect_y = pr_y r, rect_width = pr_w r + padding, rect_height = pr_h r + padding\<rparr>"

definition overlaps :: "PackedRect \<Rightarrow> PackedRect \<Rightarrow> bool" where
  "overlaps a b \<longleftrightarrow>
     pr_x a < pr_x b + pr_w b \<and> pr_x b < pr_x a + pr_w a \<and>
     pr_y a < pr_y b + pr_h b \<and> pr_y b < pr_y a + pr_h a"

text \<open>
  The invariant of a page under construction: the free nodes lie on the page and are
  clear of every footprint placed so far, the footprints lie on the page, and no two of
  them intersect.
\<close>

definition packerInv :: "int \<Rightarrow> int \<Rightarrow> MaxRectsPacker \<Rightarrow> PackedRect list \<Rightarrow> bool" where
  "packerInv maxSize padding pk items \<longleftrightarrow>
     mp_padding pk = padding \<and>
     (\<forall>f \<in> set (freeRects pk). withinPage maxSize f \<and>
        (\<forall>r \<in> set items. noIntersection f (footprint padding r))) \<and>
     (\<forall>r \<in> set items. withinPage maxSize (footprint padding r)) \<and>
     sorted_wrt (\<lambda>a b. noIntersection (footprint padding a) (footprint padding b)) items"

text \<open>The unit cells a placement covers, for counting areas.\<close>

definition cells :: "PackedRect \<Rightarrow> (int \<times> int) set" where
  "cells r = {pr_x r ..< pr_x r + pr_w r} \<times> {pr_y r ..< pr_y r + pr_h r}"

section \<open>Lemmas on the loops\<close>

declare placeRect_loop.simps [simp del]
declare pruneFreeList_loop.simps [simp del]
declare packAtlases_loop.simps [simp del]

subsection \<open>Rounding to doubles\<close>

lemma pow2_pos [simp]: "0 < (2::rat) powi e"
  by simp

lemma pow2_add: "(2::rat) powi (a + b) = 2 powi a * 2 powi b"
  by (simp add: power_int_add)

lemma pow2_mono: "a \<le> b \<Longrightarrow> (2::rat) powi a \<le> 2 powi b"
  by (rule power_int_increasing) simp_all

lemma pow2_strict_mono: "a < b \<Longrightarrow> (2::rat) powi a < 2 powi b"
  by (rule power_int_strict_increasing) simp_all

lemma pow2_of_int: "0 \<le> e \<Longrightarrow> (2::rat) powi e = of_int (2 ^ nat e)"
  by (simp add: power_int_nonneg_exp)

lemma bitlen_pow2_bounds:
  assumes "0 < p"
  shows "(2::rat) powi (bitlen p - 1) \<le> of_int p" and "of_int p < (2::rat) powi (bitlen p)"
proof -
  have b: "1 \<le> bitlen p"
    using assms bitlen_eq_zero_iff[of p] bitlen_nonneg[of p] by linarith
  have "2 ^ nat (bitlen p - 1) \<le> p" and "p < 2 ^ nat (bitlen p)"
    using bitlen_bounds[OF assms] by simp_all
  then have "(of_int (2 ^ nat (bitlen p - 1)) :: rat) \<le> of_int p"
    and "(of_int p :: rat) < of_int (2 ^ nat (bitlen p))"
    by (simp_all only: of_int_le_iff of_int_less_iff)
  then show "(2::rat) powi (bitlen p - 1) \<le> of_int p" and "of_int p < (2::rat) powi (bitlen p)"
    using b by (simp_all add: pow2_of_int)
qed

lemma ilog2_bounds:
  assumes "0 < a"
  shows "2 powi (ilog2 a) \<le> a" and "a < 2 powi (ilog2 a + 1)"
proof -
  obtain p q where pq: "quotient_of a = (p, q)"
    by (cases "quotient_of a")
  have q: "0 < q"
    using pq quotient_of_denom_pos by blast
  have a: "a = of_int p / of_int q"
    using pq by (rule quotient_of_div)
  have p: "0 < p"
    using assms q a by (simp add: zero_less_divide_iff)
  let ?e0 = "bitlen p - bitlen q"
  have qr: "(0::rat) < of_int q"
    using q by simp
  have lo: "2 powi (?e0 - 1) \<le> a"
  proof -
    have "(2::rat) powi (?e0 - 1) * of_int q \<le> 2 powi (?e0 - 1) * 2 powi (bitlen q)"
      using bitlen_pow2_bounds(2)[OF q] by (simp add: less_imp_le)
    also have "\<dots> = 2 powi (bitlen p - 1)"
      by (simp flip: pow2_add)
    also have "\<dots> \<le> of_int p"
      by (rule bitlen_pow2_bounds(1)[OF p])
    finally show ?thesis
      using qr by (simp add: a pos_le_divide_eq)
  qed
  have hi: "a < 2 powi (?e0 + 1)"
  proof -
    have "of_int p < (2::rat) powi (bitlen p)"
      by (rule bitlen_pow2_bounds(2)[OF p])
    also have "\<dots> = 2 powi (?e0 + 1) * 2 powi (bitlen q - 1)"
      by (simp flip: pow2_add)
    also have "\<dots> \<le> 2 powi (?e0 + 1) * of_int q"
      using bitlen_pow2_bounds(1)[OF q] by simp
    finally show ?thesis
      using qr by (simp add: a pos_divide_less_eq)
  qed
  have il: "ilog2 a = (if 2 powi ?e0 \<le> a then ?e0 else ?e0 - 1)"
    by (simp add: ilog2_def pq Let_def)
  show "2 powi (ilog2 a) \<le> a"
    using lo by (simp add: il)
  show "a < 2 powi (ilog2 a + 1)"
    using hi by (auto simp: il not_le)
qed

lemma ilog2_less: "0 < a \<Longrightarrow> a < 2 powi k \<Longrightarrow> ilog2 a < k"
proof (rule ccontr)
  assume a: "0 < a" "a < 2 powi k" and "\<not> ilog2 a < k"
  then have "(2::rat) powi k \<le> 2 powi (ilog2 a)"
    by (intro pow2_mono) simp
  then show False
    using ilog2_bounds(1)[OF a(1)] a(2) by linarith
qed

lemma ilog2_ge: "0 < a \<Longrightarrow> 2 powi k \<le> a \<Longrightarrow> k \<le> ilog2 a"
proof (rule ccontr)
  assume a: "0 < a" "2 powi k \<le> a" and "\<not> k \<le> ilog2 a"
  then have "(2::rat) powi (ilog2 a + 1) \<le> 2 powi k"
    by (intro pow2_mono) simp
  then show False
    using ilog2_bounds(2)[OF a(1)] a(2) by linarith
qed

lemma round_half_even_cases:
  "round_half_even y = \<lfloor>y\<rfloor> \<and> y - of_int \<lfloor>y\<rfloor> \<le> 1 / 2 \<or>
   round_half_even y = \<lfloor>y\<rfloor> + 1 \<and> 1 / 2 \<le> y - of_int \<lfloor>y\<rfloor>"
  by (auto simp: round_half_even_def Let_def)

lemma round_half_even_error: "\<bar>of_int (round_half_even y) - y\<bar> \<le> 1 / 2"
proof -
  have "of_int \<lfloor>y\<rfloor> \<le> y" and "y < of_int \<lfloor>y\<rfloor> + 1"
    by linarith+
  then show ?thesis
    using round_half_even_cases[of y] by (elim disjE conjE) simp_all
qed

lemma round_half_even_le: "y \<le> of_int N \<Longrightarrow> round_half_even y \<le> N"
proof -
  assume y: "y \<le> of_int N"
  then have f: "\<lfloor>y\<rfloor> \<le> N"
    by (simp add: floor_le_iff)
  from round_half_even_cases[of y] show ?thesis
  proof (elim disjE conjE)
    assume "round_half_even y = \<lfloor>y\<rfloor>"
    then show ?thesis using f by simp
  next
    assume r: "round_half_even y = \<lfloor>y\<rfloor> + 1" and "1 / 2 \<le> y - of_int \<lfloor>y\<rfloor>"
    then have "of_int \<lfloor>y\<rfloor> < y"
      by simp
    then have "(of_int \<lfloor>y\<rfloor> :: rat) < of_int N"
      using y by linarith
    then have "\<lfloor>y\<rfloor> < N"
      by (simp only: of_int_less_iff)
    then show ?thesis using r by simp
  qed
qed

lemma round_half_even_ge: "of_int N \<le> y \<Longrightarrow> N \<le> round_half_even y"
proof -
  assume "of_int N \<le> y"
  then have "N \<le> \<lfloor>y\<rfloor>"
    by (simp add: le_floor_iff)
  then show ?thesis
    using round_half_even_cases[of y] by auto
qed


lemma round_double_0 [simp]: "round_double 0 = Num 0"
  by (simp add: round_double_def)

lemma round_double_pos:
  assumes "0 < x" and "ilog2 x \<le> 1022"
  shows "round_double x =
           Num (of_int (round_half_even (x / 2 powi (max (ilog2 x) (- 1022) - 52)))
                * 2 powi (max (ilog2 x) (- 1022) - 52))"
proof -
  have "\<bar>x\<bar> = x" and "x \<noteq> 0"
    using assms(1) by simp_all
  moreover have "\<not> (1024 \<le> max (ilog2 x) (- 1022))" and "max (ilog2 x) (- 1022) \<noteq> 1023"
    using assms(2) by simp_all
  ultimately show ?thesis
    using assms(1) by (simp add: round_double_def Let_def)
qed

lemma round_double_le_int:
  assumes "0 < x" and "x \<le> of_int c" and "ilog2 x \<le> 52"
  obtains r where "round_double x = Num r" and "0 \<le> r" and "r \<le> of_int c"
proof -
  define e where "e = max (ilog2 x) (- 1022)"
  define ulp :: rat where "ulp = 2 powi (e - 52)"
  define n where "n = round_half_even (x / ulp)"
  have e: "e \<le> 52"
    using assms(3) by (simp add: e_def)
  have ulp: "0 < ulp"
    by (simp add: ulp_def)
  have rd: "round_double x = Num (of_int n * ulp)"
    using round_double_pos[OF assms(1)] assms(3) by (simp add: n_def ulp_def e_def)
  have inv: "ulp * of_int (2 ^ nat (52 - e)) = 1"
  proof -
    have "ulp * of_int (2 ^ nat (52 - e)) = 2 powi (e - 52) * 2 powi (52 - e)"
      using e by (simp add: ulp_def pow2_of_int)
    also have "\<dots> = 1"
      by (simp flip: pow2_add)
    finally show ?thesis .
  qed
  have "x / ulp = x * of_int (2 ^ nat (52 - e))"
    using inv ulp by (simp add: field_simps)
  also have "\<dots> \<le> of_int c * of_int (2 ^ nat (52 - e))"
    using assms(2) by (intro mult_right_mono) simp_all
  also have "\<dots> = of_int (c * 2 ^ nat (52 - e))"
    by simp
  finally have "n \<le> c * 2 ^ nat (52 - e)"
    unfolding n_def by (rule round_half_even_le)
  then have "(of_int n :: rat) \<le> of_int (c * 2 ^ nat (52 - e))"
    by (simp only: of_int_le_iff)
  then have "of_int n * ulp \<le> of_int (c * 2 ^ nat (52 - e)) * ulp"
    using ulp by (intro mult_right_mono) simp_all
  also have "\<dots> = of_int c * (ulp * of_int (2 ^ nat (52 - e)))"
    by simp
  finally have le: "of_int n * ulp \<le> of_int c"
    by (simp only: inv mult_1_right)
  have "(of_int 0 :: rat) \<le> x / ulp"
    using assms(1) ulp by simp
  then have "0 \<le> n"
    unfolding n_def by (rule round_half_even_ge)
  then have nn: "0 \<le> of_int n * ulp"
    using ulp by simp
  from rd nn le show ?thesis
    by (rule that)
qed

lemma round_double_normal:
  assumes "0 < x" and "- 1022 \<le> ilog2 x" and "ilog2 x \<le> 1022"
  obtains r where "round_double x = Num r" and "2 powi (ilog2 x) \<le> r"
    and "\<bar>r - x\<bar> \<le> x / 2 ^ 53"
proof -
  define e where "e = ilog2 x"
  define ulp :: rat where "ulp = 2 powi (e - 52)"
  define n where "n = round_half_even (x / ulp)"
  have ulp: "0 < ulp"
    by (simp add: ulp_def)
  have m: "max (ilog2 x) (- 1022) = e"
    using assms(2) by (simp add: e_def)
  have rd: "round_double x = Num (of_int n * ulp)"
    using round_double_pos[OF assms(1,3)] by (simp add: m n_def ulp_def)
  have pe: "2 powi e = ulp * 2 ^ 52"
  proof -
    have "(2::rat) powi e = 2 powi ((e - 52) + 52)"
      by simp
    also have "\<dots> = 2 powi (e - 52) * 2 powi 52"
      by (rule pow2_add)
    also have "(2::rat) powi 52 = 2 ^ 52"
      by (simp add: power_int_nonneg_exp)
    finally show ?thesis
      by (simp only: ulp_def)
  qed
  have xe: "2 powi e \<le> x"
    unfolding e_def by (rule ilog2_bounds(1)[OF assms(1)])
  have "(of_int (2 ^ 52) :: rat) \<le> x / ulp"
    using xe ulp by (simp add: pe pos_le_divide_eq mult.commute)
  then have "2 ^ 52 \<le> n"
    unfolding n_def by (rule round_half_even_ge)
  then have "(of_int (2 ^ 52) :: rat) \<le> of_int n"
    by (simp only: of_int_le_iff)
  then have "of_int (2 ^ 52) * ulp \<le> of_int n * ulp"
    using ulp by (intro mult_right_mono) simp_all
  then have lo: "2 powi e \<le> of_int n * ulp"
    by (simp add: pe mult.commute)
  have "\<bar>of_int n - x / ulp\<bar> \<le> 1 / 2"
    unfolding n_def by (rule round_half_even_error)
  then have "\<bar>of_int n - x / ulp\<bar> * ulp \<le> 1 / 2 * ulp"
    using ulp by (intro mult_right_mono) simp_all
  moreover have "\<bar>of_int n - x / ulp\<bar> * ulp = \<bar>of_int n * ulp - x\<bar>"
  proof -
    have "\<bar>of_int n - x / ulp\<bar> * ulp = \<bar>(of_int n - x / ulp) * ulp\<bar>"
      using ulp by (simp add: abs_mult)
    also have "(of_int n - x / ulp) * ulp = of_int n * ulp - x"
      using ulp by (simp add: field_simps)
    finally show ?thesis .
  qed
  moreover have "1 / 2 * ulp = 2 powi e / 2 ^ 53"
    by (simp add: pe)
  moreover have "2 powi e / 2 ^ 53 \<le> x / 2 ^ 53"
    using xe by (simp add: divide_right_mono)
  ultimately have err: "\<bar>of_int n * ulp - x\<bar> \<le> x / 2 ^ 53"
    by linarith
  from rd lo err show ?thesis
    unfolding e_def by (rule that)
qed


lemma efficiency_value:
  assumes "0 \<le> u" and "u \<le> t" and "0 < t" and "t \<le> 2 ^ 53"
  obtains e where "js_times (js_divide u t) 100 = Num e" and "0 \<le> e" and "e \<le> 100"
    and "e = 0 \<longleftrightarrow> u = 0"
    and "\<bar>e - 100 * of_int u / of_int t\<bar> \<le> (100 * of_int u / of_int t) / 2 ^ 51"
proof (cases "u = 0")
  case True
  then have "js_times (js_divide u t) 100 = Num 0"
    using assms(3) by simp
  then show ?thesis
    by (rule that[of 0]) (simp_all add: True)
next
  case False
  then have u: "0 < u"
    using assms(1) by simp
  define q :: rat where "q = of_int u / of_int t"
  define c :: rat where "c = 2 ^ 53"
  define d :: rat where "d = q / c"
  have c1: "1 \<le> c" and c0: "0 < c"
    by (simp_all add: c_def)
  have tr: "(0::rat) < of_int t" and ur: "(0::rat) < of_int u"
    using assms(3) u by simp_all
  have q0: "0 < q"
    using tr ur by (simp add: q_def)
  have q1: "q \<le> of_int 1"
  proof -
    have "(of_int u :: rat) \<le> of_int t"
      using assms(2) by (simp only: of_int_le_iff)
    then show ?thesis
      using tr by (simp add: q_def)
  qed
  have d0: "0 < d"
    using q0 c0 by (simp add: d_def)
  have dq: "d \<le> q"
  proof -
    have "q * 1 \<le> q * c"
      using q0 c1 by (intro mult_left_mono) simp_all
    then show ?thesis
      using c0 by (simp add: d_def pos_divide_le_eq)
  qed
  have small: "(2::rat) powi (- 53) = 1 / c"
    by (simp add: c_def power_int_minus_divide power_int_nonneg_exp)
  have qlo: "2 powi (- 53) \<le> q"
  proof -
    have "(of_int t :: rat) \<le> of_int (2 ^ 53)"
      using assms(4) by (simp only: of_int_le_iff)
    then have "(of_int t :: rat) \<le> c"
      by (simp add: c_def)
    moreover have "(1::rat) \<le> of_int u"
      using u by (simp add: int_one_le_iff_zero_less)
    ultimately have "1 / c \<le> of_int u / (of_int t :: rat)"
      using tr by (intro frac_le) simp_all
    then show ?thesis
      by (simp only: small q_def)
  qed
  have il_lo: "- 1022 \<le> ilog2 q"
    using ilog2_ge[OF q0 qlo] by simp
  have "q < 2 powi 1"
    using q1 by simp
  then have "ilog2 q < 1"
    by (rule ilog2_less[OF q0])
  then have il_hi: "ilog2 q \<le> 1022" and il_52: "ilog2 q \<le> 52"
    by simp_all
  obtain r1 where r1: "round_double q = Num r1" and r1lo: "2 powi (ilog2 q) \<le> r1"
    and r1err: "\<bar>r1 - q\<bar> \<le> q / 2 ^ 53"
    by (rule round_double_normal[OF q0 il_lo il_hi])
  obtain r1' where "round_double q = Num r1'" and "r1' \<le> of_int 1"
    by (rule round_double_le_int[OF q0 q1 il_52])
  then have r1hi: "r1 \<le> 1"
    using r1 by simp
  have r1d: "\<bar>r1 - q\<bar> \<le> d"
    using r1err by (simp only: d_def c_def)
  have "(2::rat) powi (- 53) \<le> 2 powi (ilog2 q)"
    using ilog2_ge[OF q0 qlo] by (rule pow2_mono)
  then have r1small: "2 powi (- 53) \<le> r1"
    using r1lo by linarith
  then have r1pos: "0 < r1"
    using pow2_pos[of "- 53"] by linarith
  define p where "p = r1 * 100"
  have p0: "0 < p" and p100: "p \<le> of_int 100"
    using r1pos r1hi by (simp_all add: p_def)
  have plo: "2 powi (- 53) \<le> p"
    using r1small r1pos unfolding p_def by linarith
  have pl_lo: "- 1022 \<le> ilog2 p"
    using ilog2_ge[OF p0 plo] by simp
  have "(2::rat) powi 7 = 128"
    by (simp add: power_int_nonneg_exp)
  then have "p < 2 powi 7"
    using p100 by simp
  then have "ilog2 p < 7"
    by (rule ilog2_less[OF p0])
  then have pl_hi: "ilog2 p \<le> 1022" and pl_52: "ilog2 p \<le> 52"
    by simp_all
  obtain e where e: "round_double p = Num e" and elo: "2 powi (ilog2 p) \<le> e"
    and eerr: "\<bar>e - p\<bar> \<le> p / 2 ^ 53"
    by (rule round_double_normal[OF p0 pl_lo pl_hi])
  obtain e' where "round_double p = Num e'" and "e' \<le> of_int 100"
    by (rule round_double_le_int[OF p0 p100 pl_52])
  then have ehi: "e \<le> 100"
    using e by simp
  have epos: "0 < e"
    using elo pow2_pos[of "ilog2 p"] by linarith
  have val: "js_times (js_divide u t) 100 = Num e"
    using assms(3) r1 e by (simp add: q_def p_def)
  have pc: "p / c \<le> 200 * d"
  proof -
    have "p \<le> 200 * q"
      using r1d dq unfolding p_def by linarith
    then have "p / c \<le> 200 * q / c"
      using c0 by (intro divide_right_mono) simp_all
    then show ?thesis
      by (simp add: d_def)
  qed
  have "\<bar>e - p\<bar> \<le> p / c"
    using eerr by (simp only: c_def)
  then have "\<bar>e - 100 * q\<bar> \<le> 400 * d"
    using pc r1d d0 unfolding p_def by linarith
  moreover have "400 * d = (100 * of_int u / of_int t) / 2 ^ 51"
    by (simp add: d_def c_def q_def)
  moreover have "100 * q = 100 * of_int u / of_int t"
    by (simp add: q_def)
  ultimately have err: "\<bar>e - 100 * of_int u / of_int t\<bar> \<le> (100 * of_int u / of_int t) / 2 ^ 51"
    by simp
  have z: "e = 0 \<longleftrightarrow> u = 0"
    using epos False by simp
  from val _ ehi z err show ?thesis
    by (rule that) (use epos in simp)
qed

subsection \<open>The pass and the loop\<close>


lemma insertTask_task:
  "insertTask pk task = (Some rect, pk') \<Longrightarrow>
   pr_task rect = task \<and> pr_w rect = targetWidth task \<and> pr_h rect = targetHeight task"
  by (auto simp: insertTask_def Let_def split: option.splits)

lemma packPage_oversized:
  "\<forall>t \<in> set tasks. oversized maxSize t \<Longrightarrow>
   packPage tasks maxSize packer pageItems didntFit = (pageItems, didntFit)"
  by (induction tasks) (auto simp: oversized_def)

lemma packPage_not_oversized:
  "packPage tasks maxSize packer pageItems didntFit = (pageItems', didntFit') \<Longrightarrow>
   \<forall>r \<in> set pageItems. \<not> oversized maxSize (pr_task r) \<Longrightarrow>
   \<forall>r \<in> set pageItems'. \<not> oversized maxSize (pr_task r)"
proof (induction tasks arbitrary: packer pageItems didntFit)
  case Nil
  then show ?case by simp
next
  case (Cons task rest)
  show ?case
  proof (cases "oversized maxSize task")
    case True
    then have "packPage rest maxSize packer pageItems didntFit = (pageItems', didntFit')"
      using Cons.prems(1) by (simp add: oversized_def)
    from Cons.IH[OF this Cons.prems(2)] show ?thesis .
  next
    case False
    obtain r packer' where ins: "insertTask packer task = (r, packer')"
      by (cases "insertTask packer task")
    show ?thesis
    proof (cases r)
      case None
      then have "packPage rest maxSize packer' pageItems (didntFit @ [task]) = (pageItems', didntFit')"
        using Cons.prems(1) False ins by (simp add: oversized_def)
      from Cons.IH[OF this Cons.prems(2)] show ?thesis .
    next
      case (Some rect)
      then have step: "packPage rest maxSize packer' (pageItems @ [rect]) didntFit = (pageItems', didntFit')"
        using Cons.prems(1) False ins by (simp add: oversized_def)
      have "pr_task rect = task"
        using ins Some insertTask_task by blast
      then have "\<forall>r \<in> set (pageItems @ [rect]). \<not> oversized maxSize (pr_task r)"
        using Cons.prems(2) False by simp
      from Cons.IH[OF step this] show ?thesis .
    qed
  qed
qed

lemma usedArea_sum_list:
  "foldl (\<lambda>a p. a + pr_w p * pr_h p) acc pageItems
     = acc + sum_list (map (\<lambda>p. pr_w p * pr_h p) pageItems)"
  by (induction pageItems arbitrary: acc) simp_all

lemma buildPage_simps:
  "page_id (buildPage idx maxSize pageItems) = idx"
  "page_width (buildPage idx maxSize pageItems) = maxSize"
  "page_height (buildPage idx maxSize pageItems) = maxSize"
  "page_items (buildPage idx maxSize pageItems) = pageItems"
  "page_efficiency (buildPage idx maxSize pageItems)
     = js_times (js_divide (sum_list (map (\<lambda>p. pr_w p * pr_h p) pageItems)) (maxSize * maxSize)) 100"
  by (simp_all add: buildPage_def Let_def usedArea_sum_list del: js_divide.simps)

lemma packPage_didntFit_subseq:
  "packPage tasks maxSize packer pageItems didntFit = (pageItems', didntFit') \<Longrightarrow>
   \<exists>ds. didntFit' = didntFit @ ds \<and> subseq ds tasks"
proof (induction tasks arbitrary: packer pageItems didntFit)
  case Nil
  then show ?case by simp
next
  case (Cons task rest)
  show ?case
  proof (cases "oversized maxSize task")
    case True
    then have "packPage rest maxSize packer pageItems didntFit = (pageItems', didntFit')"
      using Cons.prems(1) by (simp add: oversized_def)
    from Cons.IH[OF this] show ?thesis by auto
  next
    case False
    obtain r packer' where ins: "insertTask packer task = (r, packer')"
      by (cases "insertTask packer task")
    show ?thesis
    proof (cases r)
      case None
      then have "packPage rest maxSize packer' pageItems (didntFit @ [task]) = (pageItems', didntFit')"
        using Cons.prems(1) False ins by (simp add: oversized_def)
      from Cons.IH[OF this] obtain ds where "didntFit' = (didntFit @ [task]) @ ds" "subseq ds rest"
        by blast
      then have "didntFit' = didntFit @ (task # ds) \<and> subseq (task # ds) (task # rest)"
        by simp
      then show ?thesis by blast
    next
      case (Some rect)
      then have step: "packPage rest maxSize packer' (pageItems @ [rect]) didntFit = (pageItems', didntFit')"
        using Cons.prems(1) False ins by (simp add: oversized_def)
      from Cons.IH[OF step] show ?thesis by auto
    qed
  qed
qed

lemma packPage_snd_subseq:
  "subseq (snd (packPage tasks maxSize packer [] [])) tasks"
  using packPage_didntFit_subseq[of tasks maxSize packer "[]" "[]"]
  by (cases "packPage tasks maxSize packer [] []") auto

lemma packAtlases_loop_Nil [simp]:
  "packAtlases_loop [] maxSize padding pages idx = pages"
  by (simp add: packAtlases_loop.simps)

lemma packAtlases_loop_stall:
  assumes "remaining \<noteq> []" and "fst (passOf remaining maxSize padding) = []"
    and "length (snd (passOf remaining maxSize padding)) = length remaining"
  shows "packAtlases_loop remaining maxSize padding pages idx
           = pages @ [buildPage idx maxSize []]"
  using assms by (subst packAtlases_loop.simps) (simp add: Let_def passOf_def)

lemma packAtlases_loop_step:
  assumes "remaining \<noteq> []"
    and "fst (passOf remaining maxSize padding) \<noteq> []
         \<or> length (snd (passOf remaining maxSize padding)) \<noteq> length remaining"
  shows "packAtlases_loop remaining maxSize padding pages idx
           = packAtlases_loop (snd (passOf remaining maxSize padding)) maxSize padding
               (pages @ [buildPage idx maxSize (fst (passOf remaining maxSize padding))]) (Suc idx)"
  using assms by (subst packAtlases_loop.simps) (auto simp: Let_def passOf_def)

text \<open>Every page of the result is the page of one pass over a non-empty sublist.\<close>

lemma packAtlases_loop_pages:
  "pg \<in> set (packAtlases_loop remaining maxSize padding pages idx) \<Longrightarrow>
   pg \<in> set pages \<or>
   (\<exists>rem idx'. rem \<noteq> [] \<and> subseq rem remaining \<and>
      pg = buildPage idx' maxSize (fst (passOf rem maxSize padding)))"
proof (induction remaining maxSize padding pages idx rule: packAtlases_loop.induct)
  case (1 remaining maxSize padding pages idx)
  let ?pass = "passOf remaining maxSize padding"
  let ?pages' = "pages @ [buildPage idx maxSize (fst ?pass)]"
  show ?case
  proof (cases "remaining = []")
    case True
    then show ?thesis using "1.prems" by simp
  next
    case ne: False
    show ?thesis
    proof (cases "fst ?pass = [] \<and> length (snd ?pass) = length remaining")
      case True
      then have "packAtlases_loop remaining maxSize padding pages idx = ?pages'"
        using ne packAtlases_loop_stall by simp
      then have "pg \<in> set pages \<or> pg = buildPage idx maxSize (fst ?pass)"
        using "1.prems" by auto
      then show ?thesis using ne by blast
    next
      case False
      then have eq: "packAtlases_loop remaining maxSize padding pages idx
                 = packAtlases_loop (snd ?pass) maxSize padding ?pages' (Suc idx)"
        using ne packAtlases_loop_step by blast
      have c: "\<not> (length (fst (packPage remaining maxSize (new_MaxRectsPacker maxSize maxSize padding) [] [])) = 0
           \<and> length (snd (packPage remaining maxSize (new_MaxRectsPacker maxSize maxSize padding) [] []))
               = length remaining)"
        using False by (simp add: passOf_def)
      have "pg \<in> set ?pages' \<or>
        (\<exists>rem idx'. rem \<noteq> [] \<and> subseq rem (snd ?pass) \<and>
           pg = buildPage idx' maxSize (fst (passOf rem maxSize padding)))"
        using "1.IH"[OF _ refl refl refl refl c] ne "1.prems" eq by (simp add: passOf_def)
      moreover have "subseq (snd ?pass) remaining"
        unfolding passOf_def by (rule packPage_snd_subseq)
      ultimately show ?thesis
        using ne by (auto intro: subseq_order.trans)
    qed
  qed
qed


lemma sortedTasks_set [simp]: "set (sortedTasks tasks) = set tasks"
  by (simp add: sortedTasks_def)

lemma sortedTasks_Nil_iff [simp]: "sortedTasks tasks = [] \<longleftrightarrow> tasks = []"
  by (metis sortedTasks_set set_empty)

lemma packAtlases_loop_all_oversized:
  assumes "remaining \<noteq> []" and "\<forall>t \<in> set remaining. oversized maxSize t"
  shows "packAtlases_loop remaining maxSize padding pages idx = pages @ [buildPage idx maxSize []]"
proof -
  have p: "passOf remaining maxSize padding = ([], [])"
    unfolding passOf_def using assms(2) by (rule packPage_oversized)
  then have "packAtlases_loop remaining maxSize padding pages idx
       = packAtlases_loop [] maxSize padding (pages @ [buildPage idx maxSize []]) (Suc idx)"
    using assms(1) packAtlases_loop_step[of remaining maxSize padding pages idx] by simp
  then show ?thesis by simp
qed

lemma packAtlases_loop_prefix:
  "\<exists>more. packAtlases_loop remaining maxSize padding pages idx = pages @ more
      \<and> (remaining \<noteq> [] \<longrightarrow> more \<noteq> [])"
proof (induction remaining maxSize padding pages idx rule: packAtlases_loop.induct)
  case (1 remaining maxSize padding pages idx)
  let ?pass = "passOf remaining maxSize padding"
  let ?pages' = "pages @ [buildPage idx maxSize (fst ?pass)]"
  show ?case
  proof (cases "remaining = []")
    case True
    then show ?thesis by simp
  next
    case ne: False
    show ?thesis
    proof (cases "fst ?pass = [] \<and> length (snd ?pass) = length remaining")
      case True
      then show ?thesis
        using ne packAtlases_loop_stall by simp
    next
      case False
      then have eq: "packAtlases_loop remaining maxSize padding pages idx
                 = packAtlases_loop (snd ?pass) maxSize padding ?pages' (Suc idx)"
        using ne packAtlases_loop_step by blast
      have c: "\<not> (length (fst (packPage remaining maxSize (new_MaxRectsPacker maxSize maxSize padding) [] [])) = 0
           \<and> length (snd (packPage remaining maxSize (new_MaxRectsPacker maxSize maxSize padding) [] []))
               = length remaining)"
        using False by (simp add: passOf_def)
      obtain more where "packAtlases_loop (snd ?pass) maxSize padding ?pages' (Suc idx) = ?pages' @ more"
        using "1.IH"[OF _ refl refl refl refl c] ne by (auto simp: passOf_def)
      then show ?thesis
        using eq by simp
    qed
  qed
qed

lemma passOf_not_oversized:
  "r \<in> set (fst (passOf rem maxSize padding)) \<Longrightarrow> \<not> oversized maxSize (pr_task r)"
  using packPage_not_oversized[of rem maxSize "new_MaxRectsPacker maxSize maxSize padding" "[]" "[]"]
  by (cases "passOf rem maxSize padding") (auto simp: passOf_def)

lemma packAtlases_pages:
  assumes "pg \<in> set (packAtlases tasks maxSize padding)"
  obtains rem idx where "rem \<noteq> []" and "subseq rem (sortedTasks tasks)"
    and "pg = buildPage idx maxSize (fst (passOf rem maxSize padding))"
  using packAtlases_loop_pages[of pg "sortedTasks tasks" maxSize padding "[]" 0] assms
  by (auto simp: packAtlases_def)



text \<open>An invariant of the pass: it holds of the state after the last task.\<close>

lemma packPage_invariant:
  assumes run: "packPage tasks maxSize packer pageItems didntFit = (pageItems', didntFit')"
    and init: "I packer pageItems didntFit tasks"
    and skip: "\<And>pk items df t rest. I pk items df (t # rest) \<Longrightarrow> oversized maxSize t \<Longrightarrow>
                 I pk items df rest"
    and place: "\<And>pk items df t rest r pk'. I pk items df (t # rest) \<Longrightarrow> \<not> oversized maxSize t \<Longrightarrow>
                 insertTask pk t = (Some r, pk') \<Longrightarrow> I pk' (items @ [r]) df rest"
    and fail: "\<And>pk items df t rest pk'. I pk items df (t # rest) \<Longrightarrow> \<not> oversized maxSize t \<Longrightarrow>
                 insertTask pk t = (None, pk') \<Longrightarrow> I pk' items (df @ [t]) rest"
  shows "\<exists>pk'. I pk' pageItems' didntFit' []"
  using run init
proof (induction tasks arbitrary: packer pageItems didntFit)
  case Nil
  then show ?case by auto
next
  case (Cons task rest)
  show ?case
  proof (cases "oversized maxSize task")
    case True
    then have "packPage rest maxSize packer pageItems didntFit = (pageItems', didntFit')"
      using Cons.prems(1) by (simp add: oversized_def)
    moreover have "I packer pageItems didntFit rest"
      using Cons.prems(2) True by (rule skip)
    ultimately show ?thesis by (rule Cons.IH)
  next
    case False
    obtain r packer' where ins: "insertTask packer task = (r, packer')"
      by (cases "insertTask packer task")
    show ?thesis
    proof (cases r)
      case None
      then have "packPage rest maxSize packer' pageItems (didntFit @ [task]) = (pageItems', didntFit')"
        using Cons.prems(1) False ins by (simp add: oversized_def)
      moreover have "I packer' pageItems (didntFit @ [task]) rest"
        using Cons.prems(2) False ins None by (auto intro: fail)
      ultimately show ?thesis by (rule Cons.IH)
    next
      case (Some rect)
      then have "packPage rest maxSize packer' (pageItems @ [rect]) didntFit = (pageItems', didntFit')"
        using Cons.prems(1) False ins by (simp add: oversized_def)
      moreover have "I packer' (pageItems @ [rect]) didntFit rest"
        using Cons.prems(2) False ins Some by (auto intro: place)
      ultimately show ?thesis by (rule Cons.IH)
    qed
  qed
qed

lemma packPage_conservation:
  assumes "packPage tasks maxSize packer pageItems didntFit = (pageItems', didntFit')"
  shows "mset (map pr_task pageItems') + mset didntFit'
       = mset (map pr_task pageItems) + mset didntFit
         + mset (filter (\<lambda>t. \<not> oversized maxSize t) tasks)"
proof -
  let ?M = "mset (map pr_task pageItems) + mset didntFit
         + mset (filter (\<lambda>t. \<not> oversized maxSize t) tasks)"
  let ?I = "\<lambda>(pk::MaxRectsPacker) items df ts. mset (map pr_task items) + mset df
            + mset (filter (\<lambda>t. \<not> oversized maxSize t) ts) = ?M"
  have "\<exists>pk'. ?I pk' pageItems' didntFit' []"
  proof (rule packPage_invariant[where I = ?I, OF assms], goal_cases)
    case 1
    show ?case by simp
  next
    case (2 pk items df t rest)
    then show ?case by simp
  next
    case (3 pk items df t rest r pk')
    then have "pr_task r = t" using insertTask_task by blast
    with 3 show ?case by simp
  next
    case (4 pk items df t rest pk')
    then show ?case by simp
  qed
  then show ?thesis by simp
qed

lemma subseq_skip: "subseq (xs @ rest) (xs @ t # rest)"
  by (rule list_emb_append_mono) (auto intro: list_emb_Cons)

lemma packPage_items_subseq:
  assumes "packPage tasks maxSize packer pageItems didntFit = (pageItems', didntFit')"
  shows "\<exists>ps. pageItems' = pageItems @ ps \<and> subseq (map pr_task ps) tasks"
proof -
  let ?I = "\<lambda>(pk::MaxRectsPacker) items df ts.
              \<exists>ps. items = pageItems @ ps \<and> subseq (map pr_task ps @ ts) tasks"
  have "\<exists>pk'. ?I pk' pageItems' didntFit' []"
  proof (rule packPage_invariant[where I = ?I, OF assms], goal_cases)
    case 1
    show ?case by simp
  next
    case (2 pk items df t rest)
    then obtain ps where "items = pageItems @ ps" "subseq (map pr_task ps @ t # rest) tasks"
      by blast
    moreover have "subseq (map pr_task ps @ rest) (map pr_task ps @ t # rest)"
      by (rule subseq_skip)
    ultimately show ?case
      using subseq_order.trans by blast
  next
    case (3 pk items df t rest r pk')
    then obtain ps where ps: "items = pageItems @ ps" "subseq (map pr_task ps @ t # rest) tasks"
      by blast
    have "pr_task r = t" using 3 insertTask_task by blast
    then have "items @ [r] = pageItems @ (ps @ [r])"
      and "subseq (map pr_task (ps @ [r]) @ rest) tasks"
      using ps by simp_all
    then show ?case by blast
  next
    case (4 pk items df t rest pk')
    then obtain ps where "items = pageItems @ ps" "subseq (map pr_task ps @ t # rest) tasks"
      by blast
    moreover have "subseq (map pr_task ps @ rest) (map pr_task ps @ t # rest)"
      by (rule subseq_skip)
    ultimately show ?case
      using subseq_order.trans by blast
  qed
  then show ?thesis by simp
qed

lemma passOf_conservation:
  "mset (map pr_task (fst (passOf rem maxSize padding))) + mset (snd (passOf rem maxSize padding))
     = mset (filter (\<lambda>t. \<not> oversized maxSize t) rem)"
  using packPage_conservation[of rem maxSize "new_MaxRectsPacker maxSize maxSize padding" "[]" "[]"]
  by (cases "passOf rem maxSize padding") (simp add: passOf_def)

lemma passOf_items_subseq:
  "subseq (map pr_task (fst (passOf rem maxSize padding))) rem"
  using packPage_items_subseq[of rem maxSize "new_MaxRectsPacker maxSize maxSize padding" "[]" "[]"]
  by (cases "passOf rem maxSize padding") (auto simp: passOf_def)

lemma passOf_snd_subseq: "subseq (snd (passOf rem maxSize padding)) rem"
  unfolding passOf_def by (rule packPage_snd_subseq)

lemma passOf_lengths:
  "length (fst (passOf rem maxSize padding)) + length (snd (passOf rem maxSize padding))
     = length (filter (\<lambda>t. \<not> oversized maxSize t) rem)"
proof -
  have "size (mset (map pr_task (fst (passOf rem maxSize padding))) + mset (snd (passOf rem maxSize padding)))
     = size (mset (filter (\<lambda>t. \<not> oversized maxSize t) rem))"
    by (simp only: passOf_conservation)
  then show ?thesis by (simp only: size_union size_mset length_map)
qed


text \<open>An induction rule for the while loop, over the three ways a round can go.\<close>

lemma packAtlases_loop_cases [case_names finished stall step]:
  assumes "\<And>maxSize padding pages idx. P [] maxSize padding pages idx"
    and "\<And>remaining maxSize padding pages idx.
           remaining \<noteq> [] \<Longrightarrow> fst (passOf remaining maxSize padding) = [] \<Longrightarrow>
           length (snd (passOf remaining maxSize padding)) = length remaining \<Longrightarrow>
           P remaining maxSize padding pages idx"
    and "\<And>remaining maxSize padding pages idx.
           remaining \<noteq> [] \<Longrightarrow>
           fst (passOf remaining maxSize padding) \<noteq> []
             \<or> length (snd (passOf remaining maxSize padding)) \<noteq> length remaining \<Longrightarrow>
           P (snd (passOf remaining maxSize padding)) maxSize padding
             (pages @ [buildPage idx maxSize (fst (passOf remaining maxSize padding))]) (Suc idx) \<Longrightarrow>
           P remaining maxSize padding pages idx"
  shows "P remaining maxSize padding pages idx"
proof (induction remaining maxSize padding pages idx rule: packAtlases_loop.induct)
  case (1 remaining maxSize padding pages idx)
  let ?pass = "passOf remaining maxSize padding"
  show ?case
  proof (cases "remaining = []")
    case True
    then show ?thesis using assms(1) by simp
  next
    case ne: False
    show ?thesis
    proof (cases "fst ?pass = [] \<and> length (snd ?pass) = length remaining")
      case True
      then show ?thesis using ne assms(2) by blast
    next
      case False
      then have c: "\<not> (length (fst (packPage remaining maxSize (new_MaxRectsPacker maxSize maxSize padding) [] [])) = 0
           \<and> length (snd (packPage remaining maxSize (new_MaxRectsPacker maxSize maxSize padding) [] []))
               = length remaining)"
        by (simp add: passOf_def)
      have "P (snd ?pass) maxSize padding (pages @ [buildPage idx maxSize (fst ?pass)]) (Suc idx)"
        using "1.IH"[OF _ refl refl refl refl c] ne by (simp add: passOf_def)
      then show ?thesis
        using ne False assms(3) by blast
    qed
  qed
qed





lemma sortedTasks_sorted:
  "sorted_wrt (\<lambda>a b. targetHeight a \<ge> targetHeight b) (sortedTasks tasks)"
proof -
  have "sorted (map (\<lambda>t. - targetHeight t) (sortedTasks tasks))"
    unfolding sortedTasks_def by (rule sorted_sort_key)
  then show ?thesis
    by (simp add: sorted_map)
qed

lemma sortedTasks_stable:
  "filter (\<lambda>t. targetHeight t = k) (sortedTasks tasks) = filter (\<lambda>t. targetHeight t = k) tasks"
proof -
  have "filter (\<lambda>t. - targetHeight t = - k) (sort_key (\<lambda>t. - targetHeight t) tasks)
      = filter (\<lambda>t. - targetHeight t = - k) tasks"
    by (rule sort_key_stable)
  then show ?thesis
    by (simp add: sortedTasks_def)
qed


lemma findBestNode_loop_Cons:
  "findBestNode_loop (free # rest) w h (sc, r) =
     (if qualifies free w h \<and> score_less (bssf_score free w h) sc
      then findBestNode_loop rest w h (Some (bssf_score free w h), usedRectAt free w h)
      else findBestNode_loop rest w h (sc, r))"
  by (auto simp: qualifies_def bssf_score_def usedRectAt_def Let_def)

lemma findBestNode_loop_choice:
  "findBestNode_loop frees w h (sc, r) = (sc', r') \<Longrightarrow>
     (sc' = sc \<and> r' = r \<and>
        (\<forall>f \<in> set frees. qualifies f w h \<longrightarrow> \<not> score_less (bssf_score f w h) sc))
   \<or> (\<exists>pre f post. frees = pre @ f # post \<and> qualifies f w h \<and>
          score_less (bssf_score f w h) sc \<and>
          sc' = Some (bssf_score f w h) \<and> r' = usedRectAt f w h \<and>
          (\<forall>g \<in> set pre. qualifies g w h \<longrightarrow> bssf_score f w h < bssf_score g w h) \<and>
          (\<forall>g \<in> set post. qualifies g w h \<longrightarrow> bssf_score f w h \<le> bssf_score g w h))"
proof (induction frees arbitrary: sc r)
  case Nil
  then show ?case by simp
next
  case (Cons free rest)
  show ?case
  proof (cases "qualifies free w h \<and> score_less (bssf_score free w h) sc")
    case True
    let ?s = "bssf_score free w h"
    have run: "findBestNode_loop rest w h (Some ?s, usedRectAt free w h) = (sc', r')"
      using Cons.prems True by (simp add: findBestNode_loop_Cons del: findBestNode_loop.simps)
    from Cons.IH[OF run] show ?thesis
    proof (elim disjE exE conjE)
      assume k: "sc' = Some ?s" "r' = usedRectAt free w h"
        and rest: "\<forall>f \<in> set rest. qualifies f w h \<longrightarrow> \<not> score_less (bssf_score f w h) (Some ?s)"
      have "free # rest = [] @ free # rest" by simp
      moreover have "\<forall>g \<in> set rest. qualifies g w h \<longrightarrow> ?s \<le> bssf_score g w h"
        using rest by (auto simp: score_less_def)
      ultimately show ?thesis
        using True k by (intro disjI2 exI[of _ "[]"] exI[of _ free] exI[of _ rest]) simp
    next
      fix pre f post
      assume d: "rest = pre @ f # post" and q: "qualifies f w h"
        and less: "score_less (bssf_score f w h) (Some ?s)"
        and k: "sc' = Some (bssf_score f w h)" "r' = usedRectAt f w h"
        and pre: "\<forall>g \<in> set pre. qualifies g w h \<longrightarrow> bssf_score f w h < bssf_score g w h"
        and post: "\<forall>g \<in> set post. qualifies g w h \<longrightarrow> bssf_score f w h \<le> bssf_score g w h"
      have lt: "bssf_score f w h < ?s"
        using less by (simp add: score_less_def)
      have "score_less (bssf_score f w h) sc"
        using lt True by (cases sc) (auto simp: score_less_def)
      moreover have "free # rest = (free # pre) @ f # post"
        using d by simp
      moreover have "\<forall>g \<in> set (free # pre). qualifies g w h \<longrightarrow> bssf_score f w h < bssf_score g w h"
        using pre lt by simp
      ultimately show ?thesis
        using q k post by blast
    qed
  next
    case False
    have run: "findBestNode_loop rest w h (sc, r) = (sc', r')"
      using Cons.prems False by (simp add: findBestNode_loop_Cons del: findBestNode_loop.simps)
    from Cons.IH[OF run] show ?thesis
    proof (elim disjE exE conjE)
      assume "sc' = sc" "r' = r"
        and "\<forall>f \<in> set rest. qualifies f w h \<longrightarrow> \<not> score_less (bssf_score f w h) sc"
      then show ?thesis using False by auto
    next
      fix pre f post
      assume d: "rest = pre @ f # post" and q: "qualifies f w h"
        and less: "score_less (bssf_score f w h) sc"
        and k: "sc' = Some (bssf_score f w h)" "r' = usedRectAt f w h"
        and pre: "\<forall>g \<in> set pre. qualifies g w h \<longrightarrow> bssf_score f w h < bssf_score g w h"
        and post: "\<forall>g \<in> set post. qualifies g w h \<longrightarrow> bssf_score f w h \<le> bssf_score g w h"
      have "qualifies free w h \<longrightarrow> bssf_score f w h < bssf_score free w h"
        using False less by (cases sc) (auto simp: score_less_def)
      then have "\<forall>g \<in> set (free # pre). qualifies g w h \<longrightarrow> bssf_score f w h < bssf_score g w h"
        using pre by simp
      moreover have "free # rest = (free # pre) @ f # post"
        using d by simp
      ultimately show ?thesis
        using q k post less by blast
    qed
  qed
qed

lemma findBestNode_None:
  assumes "\<forall>f \<in> set frees. \<not> qualifies f w h"
  shows "fst (findBestNode frees w h) = None"
proof -
  obtain sc' r' where run: "findBestNode_loop frees w h
       (None, \<lparr>rect_x = 0, rect_y = 0, rect_width = 0, rect_height = 0\<rparr>) = (sc', r')"
    by (cases "findBestNode_loop frees w h
       (None, \<lparr>rect_x = 0, rect_y = 0, rect_width = 0, rect_height = 0\<rparr>)")
  from findBestNode_loop_choice[OF run] assms have "sc' = None"
    by auto
  then show ?thesis by (simp add: findBestNode_def run)
qed

lemma findBestNode_Some:
  assumes "\<exists>f \<in> set frees. qualifies f w h"
  shows "\<exists>pre f post. frees = pre @ f # post \<and> qualifies f w h \<and>
          findBestNode frees w h = (Some (bssf_score f w h), usedRectAt f w h) \<and>
          (\<forall>g \<in> set pre. qualifies g w h \<longrightarrow> bssf_score f w h < bssf_score g w h) \<and>
          (\<forall>g \<in> set post. qualifies g w h \<longrightarrow> bssf_score f w h \<le> bssf_score g w h)"
proof -
  obtain sc' r' where run: "findBestNode_loop frees w h
       (None, \<lparr>rect_x = 0, rect_y = 0, rect_width = 0, rect_height = 0\<rparr>) = (sc', r')"
    by (cases "findBestNode_loop frees w h
       (None, \<lparr>rect_x = 0, rect_y = 0, rect_width = 0, rect_height = 0\<rparr>)")
  have "\<not> (\<forall>f \<in> set frees. qualifies f w h \<longrightarrow> \<not> score_less (bssf_score f w h) None)"
    using assms by (simp add: score_less_def)
  with findBestNode_loop_choice[OF run] show ?thesis
    by (auto simp: findBestNode_def run)
qed




lemma subseq_set: "subseq xs ys \<Longrightarrow> set xs \<subseteq> set ys"
  by (auto elim: list_emb_set)

lemma insertTask_None:
  "insertTask pk task = (None, pk') \<Longrightarrow> pk' = pk"
  by (auto simp: insertTask_def Let_def split: option.splits)

lemma insertTask_Some:
  assumes "insertTask pk task = (Some r, pk')"
  shows "\<exists>f \<in> set (freeRects pk).
           qualifies f (targetWidth task + mp_padding pk) (targetHeight task + mp_padding pk) \<and>
           r = \<lparr>pr_x = rect_x f, pr_y = rect_y f, pr_w = targetWidth task,
                pr_h = targetHeight task, pr_task = task\<rparr> \<and>
           pk' = placeRect pk (usedRectAt f (targetWidth task + mp_padding pk)
                                           (targetHeight task + mp_padding pk))"
proof -
  let ?w = "targetWidth task + mp_padding pk" and ?h = "targetHeight task + mp_padding pk"
  obtain sc rr where fb: "findBestNode (freeRects pk) ?w ?h = (sc, rr)"
    by (cases "findBestNode (freeRects pk) ?w ?h")
  have ins: "insertTask pk task =
      (case sc of None \<Rightarrow> (None, pk)
       | Some s \<Rightarrow> (Some \<lparr>pr_x = rect_x rr, pr_y = rect_y rr, pr_w = targetWidth task,
                            pr_h = targetHeight task, pr_task = task\<rparr>, placeRect pk rr))"
    by (cases sc) (simp_all add: insertTask_def Let_def fb)
  have some: "sc \<noteq> None"
  proof
    assume "sc = None"
    then have "insertTask pk task = (None, pk)" by (simp add: ins)
    then show False using assms by simp
  qed
  have "\<exists>f \<in> set (freeRects pk). qualifies f ?w ?h"
  proof (rule ccontr)
    assume "\<not> (\<exists>f \<in> set (freeRects pk). qualifies f ?w ?h)"
    then have "\<forall>f \<in> set (freeRects pk). \<not> qualifies f ?w ?h" by blast
    then have "fst (findBestNode (freeRects pk) ?w ?h) = None" by (rule findBestNode_None)
    then show False using some fb by simp
  qed
  then obtain pre f post where c: "freeRects pk = pre @ f # post" "qualifies f ?w ?h"
      "findBestNode (freeRects pk) ?w ?h = (Some (bssf_score f ?w ?h), usedRectAt f ?w ?h)"
    using findBestNode_Some by blast
  have sc: "sc = Some (bssf_score f ?w ?h)" and rr: "rr = usedRectAt f ?w ?h"
    using c(3) fb by simp_all
  have "insertTask pk task =
      (Some \<lparr>pr_x = rect_x f, pr_y = rect_y f, pr_w = targetWidth task,
                            pr_h = targetHeight task, pr_task = task\<rparr>,
       placeRect pk (usedRectAt f ?w ?h))"
    by (simp add: ins sc rr usedRectAt_def)
  then have "r = \<lparr>pr_x = rect_x f, pr_y = rect_y f, pr_w = targetWidth task,
                pr_h = targetHeight task, pr_task = task\<rparr>"
    and "pk' = placeRect pk (usedRectAt f ?w ?h)"
    using assms by simp_all
  moreover have "f \<in> set (freeRects pk)"
    using c(1) by simp
  ultimately show ?thesis
    using c(2) by blast
qed

lemma insertTask_fresh:
  assumes "targetWidth task + padding \<le> maxSize" and "targetHeight task + padding \<le> maxSize"
  shows "\<exists>r pk'. insertTask (new_MaxRectsPacker maxSize maxSize padding) task = (Some r, pk')"
proof -
  let ?pk = "new_MaxRectsPacker maxSize maxSize padding"
  have "\<exists>f \<in> set (freeRects ?pk).
          qualifies f (targetWidth task + mp_padding ?pk) (targetHeight task + mp_padding ?pk)"
    using assms by (simp add: new_MaxRectsPacker_def qualifies_def)
  then obtain f where
    "findBestNode (freeRects ?pk) (targetWidth task + mp_padding ?pk) (targetHeight task + mp_padding ?pk)
       = (Some (bssf_score f (targetWidth task + mp_padding ?pk) (targetHeight task + mp_padding ?pk)),
          usedRectAt f (targetWidth task + mp_padding ?pk) (targetHeight task + mp_padding ?pk))"
    using findBestNode_Some by blast
  then show ?thesis
    by (simp add: insertTask_def Let_def)
qed

lemma placedTasks_append [simp]:
  "placedTasks (pages @ [pg]) = placedTasks pages @ map pr_task (page_items pg)"
  by (simp add: placedTasks_def)

lemma placedTasks_Nil [simp]: "placedTasks [] = []"
  by (simp add: placedTasks_def)

lemma packPage_places_first:
  assumes "\<exists>t \<in> set tasks. \<not> oversized maxSize t"
    and "\<forall>t \<in> set tasks. \<not> oversized maxSize t \<longrightarrow> fitsPadded maxSize padding t"
  shows "fst (packPage tasks maxSize (new_MaxRectsPacker maxSize maxSize padding) [] []) \<noteq> []"
  using assms
proof (induction tasks)
  case Nil
  then show ?case by simp
next
  case (Cons t rest)
  show ?case
  proof (cases "oversized maxSize t")
    case True
    then have "packPage (t # rest) maxSize (new_MaxRectsPacker maxSize maxSize padding) [] []
        = packPage rest maxSize (new_MaxRectsPacker maxSize maxSize padding) [] []"
      by (simp add: oversized_def)
    moreover have "\<exists>t \<in> set rest. \<not> oversized maxSize t"
      using Cons.prems(1) True by auto
    moreover have "\<forall>t \<in> set rest. \<not> oversized maxSize t \<longrightarrow> fitsPadded maxSize padding t"
      using Cons.prems(2) by simp
    ultimately show ?thesis
      using Cons.IH by simp
  next
    case False
    then have no: "\<not> (targetWidth t > maxSize \<or> targetHeight t > maxSize)"
      by (simp add: oversized_def)
    have "fitsPadded maxSize padding t"
      using Cons.prems(2) False by simp
    then obtain r pk' where
      ins: "insertTask (new_MaxRectsPacker maxSize maxSize padding) t = (Some r, pk')"
      using insertTask_fresh unfolding fitsPadded_def by blast
    obtain items df where run: "packPage rest maxSize pk' ([] @ [r]) [] = (items, df)"
      by (cases "packPage rest maxSize pk' ([] @ [r]) []")
    have "packPage (t # rest) maxSize (new_MaxRectsPacker maxSize maxSize padding) [] []
        = packPage rest maxSize pk' ([] @ [r]) []"
      using no ins by (simp del: append.simps)
    then have p: "packPage (t # rest) maxSize (new_MaxRectsPacker maxSize maxSize padding) [] []
        = (items, df)"
      using run by simp
    from packPage_items_subseq[OF run] obtain ps where "items = ([] @ [r]) @ ps"
      by blast
    then have "items \<noteq> []"
      by simp
    then show ?thesis
      unfolding p fst_conv .
  qed
qed

lemma passOf_left_over_fit:
  "t \<in> set (snd (passOf rem maxSize padding)) \<Longrightarrow> \<not> oversized maxSize t \<and> t \<in> set rem"
proof -
  assume t: "t \<in> set (snd (passOf rem maxSize padding))"
  then have "t \<in># mset (map pr_task (fst (passOf rem maxSize padding)))
                  + mset (snd (passOf rem maxSize padding))"
    by simp
  then have "t \<in># mset (filter (\<lambda>t. \<not> oversized maxSize t) rem)"
    by (simp only: passOf_conservation)
  then show ?thesis
    by simp
qed

text \<open>
  When every item of the list that is not oversized fits an empty page with its padding,
  the loop places each of them exactly once.
\<close>

lemma packAtlases_loop_conservation:
  assumes "\<forall>t \<in> set remaining. \<not> oversized maxSize t \<longrightarrow> fitsPadded maxSize padding t"
  shows "mset (placedTasks (packAtlases_loop remaining maxSize padding pages idx))
           = mset (placedTasks pages) + mset (filter (\<lambda>t. \<not> oversized maxSize t) remaining)"
  using assms
proof (induction remaining maxSize padding pages idx rule: packAtlases_loop_cases)
  case (finished maxSize padding pages idx)
  show ?case by simp
next
  case (stall remaining maxSize padding pages idx)
  have "length (filter (\<lambda>t. \<not> oversized maxSize t) remaining) = length remaining"
    using passOf_lengths[of remaining maxSize padding] stall.hyps(2,3) by simp
  then have all: "\<forall>t \<in> set remaining. \<not> oversized maxSize t"
    using length_filter_less[of _ remaining "\<lambda>t. \<not> oversized maxSize t"] by fastforce
  then have "\<exists>t \<in> set remaining. \<not> oversized maxSize t"
    using stall.hyps(1) by (cases remaining) auto
  then have "fst (passOf remaining maxSize padding) \<noteq> []"
    unfolding passOf_def using stall.prems by (rule packPage_places_first)
  then show ?case
    using stall.hyps(2) by simp
next
  case (step remaining maxSize padding pages idx)
  let ?pass = "passOf remaining maxSize padding"
  let ?pages' = "pages @ [buildPage idx maxSize (fst ?pass)]"
  have left: "\<forall>t \<in> set (snd ?pass). \<not> oversized maxSize t \<and> t \<in> set remaining"
    using passOf_left_over_fit by blast
  then have "\<forall>t \<in> set (snd ?pass). \<not> oversized maxSize t \<longrightarrow> fitsPadded maxSize padding t"
    using step.prems by blast
  then have ih: "mset (placedTasks (packAtlases_loop (snd ?pass) maxSize padding ?pages' (Suc idx)))
           = mset (placedTasks ?pages') + mset (filter (\<lambda>t. \<not> oversized maxSize t) (snd ?pass))"
    by (rule step.IH)
  have eq: "packAtlases_loop remaining maxSize padding pages idx
              = packAtlases_loop (snd ?pass) maxSize padding ?pages' (Suc idx)"
    using step.hyps by (rule packAtlases_loop_step)
  have f: "filter (\<lambda>t. \<not> oversized maxSize t) (snd ?pass) = snd ?pass"
    using left by (simp add: filter_id_conv)
  have "mset (placedTasks ?pages') + mset (snd ?pass)
      = mset (placedTasks pages) + (mset (map pr_task (fst ?pass)) + mset (snd ?pass))"
    by (simp add: buildPage_simps)
  then show ?case
    by (simp only: eq ih f passOf_conservation)
qed

lemma packAtlases_conservation:
  assumes "\<forall>t \<in> set tasks. \<not> oversized maxSize t \<longrightarrow> fitsPadded maxSize padding t"
  shows "mset (placedTasks (packAtlases tasks maxSize padding))
           = mset (filter (\<lambda>t. \<not> oversized maxSize t) tasks)"
proof -
  have "\<forall>t \<in> set (sortedTasks tasks). \<not> oversized maxSize t \<longrightarrow> fitsPadded maxSize padding t"
    using assms by simp
  then have "mset (placedTasks (packAtlases tasks maxSize padding))
      = mset (filter (\<lambda>t. \<not> oversized maxSize t) (sortedTasks tasks))"
    using packAtlases_loop_conservation[of "sortedTasks tasks" maxSize padding "[]" 0]
    by (simp add: packAtlases_def)
  also have "\<dots> = filter_mset (\<lambda>t. \<not> oversized maxSize t) (mset (sortedTasks tasks))"
    by simp
  also have "mset (sortedTasks tasks) = mset tasks"
    by (simp add: sortedTasks_def)
  finally show ?thesis
    by simp
qed
lemma eqTrueI: "b \<Longrightarrow> b = True"
  by simp

lemma eqFalseI: "\<not> b \<Longrightarrow> b = False"
  by simp

lemma isContained_refl: "isContained f f"
  by (simp add: isContained_def)

lemma isContained_trans: "isContained a b \<Longrightarrow> isContained b c \<Longrightarrow> isContained a c"
  by (simp add: isContained_def)

lemma isContained_noIntersection:
  "isContained n f \<Longrightarrow> noIntersection f u \<Longrightarrow> noIntersection n u"
  unfolding isContained_def noIntersection_def by linarith

lemma isContained_withinPage:
  "isContained n f \<Longrightarrow> withinPage maxSize f \<Longrightarrow> withinPage maxSize n"
  unfolding isContained_def withinPage_def by linarith

lemma noIntersection_sym: "noIntersection f u \<Longrightarrow> noIntersection u f"
  unfolding noIntersection_def by linarith

lemma splitFreeNode_isContained:
  "n \<in> set (snd (splitFreeNode f u)) \<Longrightarrow> isContained n f"
  unfolding splitFreeNode_def noIntersection_def isContained_def
  by (simp split: if_splits) (elim disjE conjE; simp)

lemma set_splice1: "set (splice1 i xs) \<subseteq> set xs"
  unfolding splice1_def by (auto dest: in_set_takeD in_set_dropD)

lemma take_splice1: "i < length xs \<Longrightarrow> take i (splice1 i (xs @ ys)) = take i xs"
  by (simp add: splice1_def)

text \<open>What placeRect leaves in the free list lies inside an old free node and is clear of the used rectangle.\<close>

lemma placeRect_loop_contained:
  "g \<in> set (placeRect_loop i frees u) \<Longrightarrow> \<exists>f \<in> set frees. isContained g f"
proof (induction i frees u rule: placeRect_loop.induct)
  case (1 i frees rect)
  show ?case
  proof (cases "i < length frees")
    case False
    then have "placeRect_loop i frees rect = frees"
      by (simp add: placeRect_loop.simps)
    then show ?thesis
      using "1.prems" isContained_refl by auto
  next
    case True
    obtain b pushed where sp: "splitFreeNode (frees ! i) rect = (b, pushed)"
      by (cases "splitFreeNode (frees ! i) rect")
    have pushed: "\<forall>n \<in> set pushed. isContained n (frees ! i)"
      using splitFreeNode_isContained[of _ "frees ! i" rect] sp by simp
    have fi: "frees ! i \<in> set frees"
      using True by simp
    show ?thesis
    proof (cases b)
      case True
      have "placeRect_loop i frees rect = placeRect_loop i (splice1 i (frees @ pushed)) rect"
        using \<open>i < length frees\<close> sp True by (subst placeRect_loop.simps) simp
      then have "g \<in> set (placeRect_loop i (splice1 i (frees @ pushed)) rect)"
        using "1.prems" by simp
      from "1.IH"(1)[OF \<open>i < length frees\<close> sp[symmetric] eqTrueI[OF True] this]
      obtain f where f: "f \<in> set (splice1 i (frees @ pushed))" "isContained g f"
        by blast
      then have "f \<in> set frees \<or> f \<in> set pushed"
        using set_splice1[of i "frees @ pushed"] by auto
      then show ?thesis
        using f(2) pushed fi isContained_trans by blast
    next
      case False
      have "placeRect_loop i frees rect = placeRect_loop (Suc i) (frees @ pushed) rect"
        using \<open>i < length frees\<close> sp False by (subst placeRect_loop.simps) simp
      then have "g \<in> set (placeRect_loop (Suc i) (frees @ pushed) rect)"
        using "1.prems" by simp
      from "1.IH"(2)[OF \<open>i < length frees\<close> sp[symmetric] eqFalseI[OF False] this]
      obtain f where f: "f \<in> set (frees @ pushed)" "isContained g f"
        by blast
      then have "f \<in> set frees \<or> f \<in> set pushed"
        by auto
      then show ?thesis
        using f(2) pushed fi isContained_trans by blast
    qed
  qed
qed

lemma placeRect_loop_clear:
  "\<forall>f \<in> set (take i frees). noIntersection f u \<Longrightarrow>
   \<forall>g \<in> set (placeRect_loop i frees u). noIntersection g u"
proof (induction i frees u rule: placeRect_loop.induct)
  case (1 i frees rect)
  show ?case
  proof (cases "i < length frees")
    case False
    then have "placeRect_loop i frees rect = frees" and "take i frees = frees"
      by (simp_all add: placeRect_loop.simps)
    then show ?thesis
      using "1.prems" by simp
  next
    case True
    obtain b pushed where sp: "splitFreeNode (frees ! i) rect = (b, pushed)"
      by (cases "splitFreeNode (frees ! i) rect")
    show ?thesis
    proof (cases b)
      case True
      have eq: "placeRect_loop i frees rect = placeRect_loop i (splice1 i (frees @ pushed)) rect"
        using \<open>i < length frees\<close> sp True by (subst placeRect_loop.simps) simp
      have "\<forall>f \<in> set (take i (splice1 i (frees @ pushed))). noIntersection f rect"
        using "1.prems" \<open>i < length frees\<close> by (simp add: take_splice1)
      from "1.IH"(1)[OF \<open>i < length frees\<close> sp[symmetric] eqTrueI[OF True] this] show ?thesis
        by (simp only: eq)
    next
      case False
      have eq: "placeRect_loop i frees rect = placeRect_loop (Suc i) (frees @ pushed) rect"
        using \<open>i < length frees\<close> sp False by (subst placeRect_loop.simps) simp
      have "pushed = []"
        using splitFreeNode_False[of "frees ! i" rect] sp False by simp
      moreover have "noIntersection (frees ! i) rect"
        using splitFreeNode_fst[of "frees ! i" rect] sp False by simp
      ultimately have "\<forall>f \<in> set (take (Suc i) (frees @ pushed)). noIntersection f rect"
        using "1.prems" \<open>i < length frees\<close> by (simp add: take_Suc_conv_app_nth)
      from "1.IH"(2)[OF \<open>i < length frees\<close> sp[symmetric] eqFalseI[OF False] this] show ?thesis
        by (simp only: eq)
    qed
  qed
qed

lemma pruneFreeList_loop_subset:
  "set (pruneFreeList_loop i j frees) \<subseteq> set frees"
proof (induction i j frees rule: pruneFreeList_loop.induct)
  case (1 i j frees)
  show ?case
  proof (cases "i < length frees")
    case False
    then show ?thesis by (simp add: pruneFreeList_loop.simps)
  next
    case i: True
    show ?thesis
    proof (cases "j < length frees")
      case False
      then have "pruneFreeList_loop i j frees = pruneFreeList_loop (Suc i) (Suc (Suc i)) frees"
        using i by (subst pruneFreeList_loop.simps) simp
      then show ?thesis
        using "1.IH"(4)[OF i False] by simp
    next
      case j: True
      show ?thesis
      proof (cases "isContained (frees ! i) (frees ! j)")
        case True
        then have "pruneFreeList_loop i j frees = pruneFreeList_loop i (Suc i) (splice1 i frees)"
          using i j by (subst pruneFreeList_loop.simps) simp
        then show ?thesis
          using "1.IH"(1)[OF i j True] set_splice1[of i frees] by auto
      next
        case c1: False
        show ?thesis
        proof (cases "isContained (frees ! j) (frees ! i)")
          case True
          then have "pruneFreeList_loop i j frees = pruneFreeList_loop i j (splice1 j frees)"
            using i j c1 by (subst pruneFreeList_loop.simps) simp
          then show ?thesis
            using "1.IH"(2)[OF i j c1 True] set_splice1[of j frees] by auto
        next
          case False
          then have "pruneFreeList_loop i j frees = pruneFreeList_loop i (Suc j) frees"
            using i j c1 by (subst pruneFreeList_loop.simps) simp
          then show ?thesis
            using "1.IH"(3)[OF i j c1 False] by simp
        qed
      qed
    qed
  qed
qed

lemma placeRect_free:
  assumes "g \<in> set (freeRects (placeRect pk u))"
  shows "noIntersection g u \<and> (\<exists>f \<in> set (freeRects pk). isContained g f)"
proof -
  have "g \<in> set (placeRect_loop 0 (freeRects pk) u)"
    using assms pruneFreeList_loop_subset by (auto simp: placeRect_def pruneFreeList_def)
  then show ?thesis
    using placeRect_loop_clear[of 0 "freeRects pk" u] placeRect_loop_contained by auto
qed

lemma placeRect_padding [simp]: "mp_padding (placeRect pk u) = mp_padding pk"
  by (simp add: placeRect_def pruneFreeList_def)


lemma packerInv_new: "packerInv maxSize padding (new_MaxRectsPacker maxSize maxSize padding) []"
  by (simp add: packerInv_def new_MaxRectsPacker_def withinPage_def)

lemma usedRectAt_isContained: "qualifies f w h \<Longrightarrow> isContained (usedRectAt f w h) f"
  by (simp add: qualifies_def usedRectAt_def isContained_def)

lemma packerInv_insert:
  assumes inv: "packerInv maxSize padding pk items"
    and ins: "insertTask pk t = (Some r, pk')"
  shows "packerInv maxSize padding pk' (items @ [r])"
proof -
  have pad: "mp_padding pk = padding"
    and free: "\<And>f. f \<in> set (freeRects pk) \<Longrightarrow> withinPage maxSize f"
    and clear: "\<And>f a. f \<in> set (freeRects pk) \<Longrightarrow> a \<in> set items \<Longrightarrow>
                  noIntersection f (footprint padding a)"
    and placed: "\<And>a. a \<in> set items \<Longrightarrow> withinPage maxSize (footprint padding a)"
    and apart: "sorted_wrt (\<lambda>a b. noIntersection (footprint padding a) (footprint padding b)) items"
    using inv by (simp_all add: packerInv_def)
  let ?w = "targetWidth t + padding" and ?h = "targetHeight t + padding"
  from insertTask_Some[OF ins] pad obtain f where f: "f \<in> set (freeRects pk)"
    and q: "qualifies f ?w ?h"
    and r: "r = \<lparr>pr_x = rect_x f, pr_y = rect_y f, pr_w = targetWidth t,
                 pr_h = targetHeight t, pr_task = t\<rparr>"
    and pk': "pk' = placeRect pk (usedRectAt f ?w ?h)"
    by auto
  let ?u = "usedRectAt f ?w ?h"
  have fp: "footprint padding r = ?u"
    by (simp add: r footprint_def usedRectAt_def)
  have uf: "isContained ?u f"
    using q by (rule usedRectAt_isContained)
  have 1: "mp_padding pk' = padding"
    by (simp add: pk' pad)
  have 2: "withinPage maxSize g \<and> (\<forall>a \<in> set (items @ [r]). noIntersection g (footprint padding a))"
    if "g \<in> set (freeRects pk')" for g
  proof -
    from that have "noIntersection g ?u" and "\<exists>f' \<in> set (freeRects pk). isContained g f'"
      using placeRect_free[of g pk ?u] by (simp_all add: pk')
    then obtain f' where f': "f' \<in> set (freeRects pk)" "isContained g f'"
      by blast
    have "withinPage maxSize g"
      using f' free isContained_withinPage by blast
    moreover have "noIntersection g (footprint padding a)" if "a \<in> set items" for a
      using f' clear[OF f'(1) that] isContained_noIntersection by blast
    ultimately show ?thesis
      using \<open>noIntersection g ?u\<close> fp by auto
  qed
  have 3: "withinPage maxSize (footprint padding a)" if "a \<in> set (items @ [r])" for a
  proof (cases "a = r")
    case True
    then show ?thesis
      using fp uf free[OF f] isContained_withinPage by simp
  next
    case False
    then show ?thesis using that placed by simp
  qed
  have "noIntersection (footprint padding a) (footprint padding r)" if "a \<in> set items" for a
  proof -
    have "noIntersection ?u (footprint padding a)"
      using uf clear[OF f that] by (rule isContained_noIntersection)
    then show ?thesis
      using fp noIntersection_sym by simp
  qed
  then have 4: "sorted_wrt (\<lambda>a b. noIntersection (footprint padding a) (footprint padding b)) (items @ [r])"
    using apart by (simp add: sorted_wrt_append)
  show ?thesis
    unfolding packerInv_def using 1 2 3 4 by blast
qed

lemma packPage_packerInv:
  assumes "packPage tasks maxSize packer pageItems didntFit = (pageItems', didntFit')"
    and "packerInv maxSize padding packer pageItems"
  shows "\<exists>pk'. packerInv maxSize padding pk' pageItems'"
proof -
  let ?I = "\<lambda>pk items (df::OptimizationTask list) (ts::OptimizationTask list).
              packerInv maxSize padding pk items"
  show ?thesis
  proof (rule packPage_invariant[where I = ?I, OF assms(1)], goal_cases)
    case 1
    show ?case by (rule assms(2))
  next
    case (2 pk items df t rest)
    then show ?case by simp
  next
    case (3 pk items df t rest r pk')
    then show ?case using packerInv_insert by blast
  next
    case (4 pk items df t rest pk')
    then show ?case using insertTask_None by blast
  qed
qed

lemma passOf_packerInv:
  "\<exists>pk'. packerInv maxSize padding pk' (fst (passOf rem maxSize padding))"
proof -
  obtain items df where run: "packPage rem maxSize (new_MaxRectsPacker maxSize maxSize padding) [] []
      = (items, df)"
    by (cases "packPage rem maxSize (new_MaxRectsPacker maxSize maxSize padding) [] []")
  from packPage_packerInv[OF run packerInv_new] show ?thesis
    by (simp add: passOf_def run)
qed

lemma footprints_apart_no_overlap:
  "0 \<le> padding \<Longrightarrow> noIntersection (footprint padding a) (footprint padding b) \<Longrightarrow>
   \<not> overlaps a b \<and> \<not> overlaps b a"
  unfolding noIntersection_def footprint_def overlaps_def by (simp; linarith)

lemma footprint_within_page:
  "0 \<le> padding \<Longrightarrow> withinPage maxSize (footprint padding r) \<Longrightarrow>
   0 \<le> pr_x r \<and> 0 \<le> pr_y r \<and> pr_x r + pr_w r \<le> maxSize \<and> pr_y r + pr_h r \<le> maxSize"
  unfolding withinPage_def footprint_def by simp

lemma passOf_no_overlap:
  assumes "0 \<le> padding"
  shows "sorted_wrt (\<lambda>a b. \<not> overlaps a b \<and> \<not> overlaps b a) (fst (passOf rem maxSize padding))"
proof -
  obtain pk' where "packerInv maxSize padding pk' (fst (passOf rem maxSize padding))"
    using passOf_packerInv by blast
  then have "sorted_wrt (\<lambda>a b. noIntersection (footprint padding a) (footprint padding b))
               (fst (passOf rem maxSize padding))"
    by (simp add: packerInv_def)
  then show ?thesis
    by (rule sorted_wrt_mono_rel[rotated]) (use assms footprints_apart_no_overlap in blast)
qed

lemma passOf_contained:
  assumes "0 \<le> padding" and "r \<in> set (fst (passOf rem maxSize padding))"
  shows "0 \<le> pr_x r \<and> 0 \<le> pr_y r \<and> pr_x r + pr_w r \<le> maxSize \<and> pr_y r + pr_h r \<le> maxSize"
proof -
  obtain pk' where "packerInv maxSize padding pk' (fst (passOf rem maxSize padding))"
    using passOf_packerInv by blast
  then have "withinPage maxSize (footprint padding r)"
    using assms(2) by (simp add: packerInv_def)
  with assms(1) show ?thesis
    by (rule footprint_within_page)
qed




lemma finite_cells [simp]: "finite (cells r)"
  by (simp add: cells_def)

lemma card_cells:
  "0 \<le> pr_w r \<Longrightarrow> 0 \<le> pr_h r \<Longrightarrow> int (card (cells r)) = pr_w r * pr_h r"
  by (simp add: cells_def card_cartesian_product)

lemma cells_disjoint: "\<not> overlaps a b \<Longrightarrow> cells a \<inter> cells b = {}"
  unfolding overlaps_def cells_def by auto

lemma cells_on_page:
  assumes "0 \<le> pr_x r" "0 \<le> pr_y r" "pr_x r + pr_w r \<le> maxSize" "pr_y r + pr_h r \<le> maxSize"
  shows "cells r \<subseteq> {0..<maxSize} \<times> {0..<maxSize}"
  using assms unfolding cells_def by auto

lemma area_sum_card:
  assumes "sorted_wrt (\<lambda>a b. \<not> overlaps a b \<and> \<not> overlaps b a) items"
    and "\<forall>r \<in> set items. 0 \<le> pr_w r \<and> 0 \<le> pr_h r"
  shows "sum_list (map (\<lambda>r. pr_w r * pr_h r) items) = int (card (\<Union>r \<in> set items. cells r))"
  using assms
proof (induction items)
  case Nil
  show ?case by simp
next
  case (Cons a rest)
  let ?U = "\<Union>r \<in> set rest. cells r"
  have ih: "sum_list (map (\<lambda>r. pr_w r * pr_h r) rest) = int (card ?U)"
    using Cons by simp
  have "cells a \<inter> ?U = {}"
    using Cons.prems(1) cells_disjoint by fastforce
  moreover have "finite ?U"
    by simp
  ultimately have "card (cells a \<union> ?U) = card (cells a) + card ?U"
    by (simp add: card_Un_disjoint)
  moreover have "int (card (cells a)) = pr_w a * pr_h a"
    using Cons.prems(2) by (simp add: card_cells)
  ultimately show ?case
    using ih by simp
qed

lemma area_sum_le_page:
  assumes "0 \<le> maxSize"
    and "sorted_wrt (\<lambda>a b. \<not> overlaps a b \<and> \<not> overlaps b a) items"
    and "\<forall>r \<in> set items. 0 \<le> pr_w r \<and> 0 \<le> pr_h r"
    and "\<forall>r \<in> set items. 0 \<le> pr_x r \<and> 0 \<le> pr_y r \<and>
            pr_x r + pr_w r \<le> maxSize \<and> pr_y r + pr_h r \<le> maxSize"
  shows "sum_list (map (\<lambda>r. pr_w r * pr_h r) items) \<le> maxSize * maxSize"
proof -
  let ?page = "{0..<maxSize} \<times> {0..<maxSize}"
  have "(\<Union>r \<in> set items. cells r) \<subseteq> ?page"
    using assms(4) cells_on_page by blast
  then have "card (\<Union>r \<in> set items. cells r) \<le> card ?page"
    by (intro card_mono) simp_all
  moreover have "int (card ?page) = maxSize * maxSize"
    using assms(1) by (simp add: card_cartesian_product)
  ultimately show ?thesis
    using area_sum_card[OF assms(2,3)] by linarith
qed

lemma packPage_dims:
  assumes "packPage tasks maxSize packer pageItems didntFit = (pageItems', didntFit')"
    and "\<forall>r \<in> set pageItems. pr_w r = targetWidth (pr_task r) \<and> pr_h r = targetHeight (pr_task r)"
  shows "\<forall>r \<in> set pageItems'. pr_w r = targetWidth (pr_task r) \<and> pr_h r = targetHeight (pr_task r)"
proof -
  let ?I = "\<lambda>(pk::MaxRectsPacker) items (df::OptimizationTask list) (ts::OptimizationTask list).
              \<forall>r \<in> set items. pr_w r = targetWidth (pr_task r) \<and> pr_h r = targetHeight (pr_task r)"
  have "\<exists>pk'. ?I pk' pageItems' didntFit' []"
  proof (rule packPage_invariant[where I = ?I, OF assms(1)], goal_cases)
    case 1
    show ?case by (rule assms(2))
  next
    case (2 pk items df t rest)
    then show ?case by simp
  next
    case (3 pk items df t rest r pk')
    then show ?case using insertTask_task[of pk t r pk'] by simp
  next
    case (4 pk items df t rest pk')
    then show ?case by simp
  qed
  then show ?thesis by simp
qed

lemma passOf_dims:
  "r \<in> set (fst (passOf rem maxSize padding)) \<Longrightarrow>
   pr_w r = targetWidth (pr_task r) \<and> pr_h r = targetHeight (pr_task r) \<and> pr_task r \<in> set rem"
proof -
  assume r: "r \<in> set (fst (passOf rem maxSize padding))"
  obtain items df where run: "packPage rem maxSize (new_MaxRectsPacker maxSize maxSize padding) [] []
      = (items, df)"
    by (cases "packPage rem maxSize (new_MaxRectsPacker maxSize maxSize padding) [] []")
  have "\<forall>r \<in> set items. pr_w r = targetWidth (pr_task r) \<and> pr_h r = targetHeight (pr_task r)"
    using packPage_dims[OF run] by simp
  moreover have "items = fst (passOf rem maxSize padding)"
    by (simp add: passOf_def run)
  moreover have "pr_task r \<in> set rem"
    using subseq_set[OF passOf_items_subseq[of rem maxSize padding]] r by auto
  ultimately show ?thesis
    using r by blast
qed

lemma sum_list_pos_iff:
  assumes "\<forall>r \<in> set items. 0 < f r"
  shows "sum_list (map f items) = (0::int) \<longleftrightarrow> items = []"
proof (cases items)
  case Nil
  then show ?thesis by simp
next
  case (Cons a rest)
  have "0 \<le> sum_list (map f rest)"
    using assms Cons by (intro sum_list_nonneg) auto
  moreover have "0 < f a"
    using assms Cons by simp
  ultimately show ?thesis
    using Cons by simp
qed

section \<open>Claims\<close>

text \<open>
  C1. With a padding that is not negative, on every returned page no two distinct
  placements overlap, and every placement lies on the page: 0 <= x, 0 <= y,
  x + width <= page size and y + height <= page size.
\<close>

theorem placements_disjoint_and_contained:
  assumes "0 \<le> padding"
    and "pg \<in> set (packAtlases tasks maxSize padding)"
  shows "(\<forall>i j. i < length (page_items pg) \<and> j < length (page_items pg) \<and> i \<noteq> j \<longrightarrow>
            \<not> overlaps (page_items pg ! i) (page_items pg ! j)) \<and>
         (\<forall>r \<in> set (page_items pg).
            0 \<le> pr_x r \<and> 0 \<le> pr_y r \<and>
            pr_x r + pr_w r \<le> maxSize \<and> pr_y r + pr_h r \<le> maxSize)"
proof -
  from assms(2) obtain rem idx where pg: "pg = buildPage idx maxSize (fst (passOf rem maxSize padding))"
    by (rule packAtlases_pages)
  let ?items = "fst (passOf rem maxSize padding)"
  have items: "page_items pg = ?items"
    by (simp add: pg buildPage_simps)
  have apart: "sorted_wrt (\<lambda>a b. \<not> overlaps a b \<and> \<not> overlaps b a) ?items"
    using assms(1) by (rule passOf_no_overlap)
  have "\<not> overlaps (?items ! i) (?items ! j)"
    if "i < length ?items" "j < length ?items" "i \<noteq> j" for i j
  proof (cases "i < j")
    case True
    then show ?thesis
      using apart that sorted_wrt_nth_less by blast
  next
    case False
    then have "j < i" using that(3) by simp
    then show ?thesis
      using apart that sorted_wrt_nth_less by blast
  qed
  moreover have "0 \<le> pr_x r \<and> 0 \<le> pr_y r \<and>
            pr_x r + pr_w r \<le> maxSize \<and> pr_y r + pr_h r \<le> maxSize"
    if "r \<in> set ?items" for r
    using assms(1) that by (rule passOf_contained)
  ultimately show ?thesis
    by (simp only: items) blast
qed



theorem placements_disjoint_and_contained_witness:
  "\<not> overlaps
       \<lparr>pr_x = 0, pr_y = 0, pr_w = 50, pr_h = 70,
          pr_task = \<lparr>task_id = ''b'', targetWidth = 50, targetHeight = 70\<rparr>\<rparr>
       \<lparr>pr_x = 52, pr_y = 0, pr_w = 28, pr_h = 28,
          pr_task = \<lparr>task_id = ''d'', targetWidth = 28, targetHeight = 28\<rparr>\<rparr>
   \<and> pr_x \<lparr>pr_x = 52, pr_y = 0, pr_w = 28, pr_h = 28,
             pr_task = \<lparr>task_id = ''d'', targetWidth = 28, targetHeight = 28\<rparr>\<rparr>
       + pr_w \<lparr>pr_x = 52, pr_y = 0, pr_w = 28, pr_h = 28,
               pr_task = \<lparr>task_id = ''d'', targetWidth = 28, targetHeight = 28\<rparr>\<rparr> \<le> 100
   \<and> \<lparr>page_id = 0, page_width = 100, page_height = 100,
        page_items =
          [\<lparr>pr_x = 0, pr_y = 0, pr_w = 50, pr_h = 70,
             pr_task = \<lparr>task_id = ''b'', targetWidth = 50, targetHeight = 70\<rparr>\<rparr>,
           \<lparr>pr_x = 52, pr_y = 0, pr_w = 28, pr_h = 28,
             pr_task = \<lparr>task_id = ''d'', targetWidth = 28, targetHeight = 28\<rparr>\<rparr>],
        page_efficiency = Num (1507298500285563 / 35184372088832)\<rparr>
       \<in> set (packAtlases [\<lparr>task_id = ''b'', targetWidth = 50, targetHeight = 70\<rparr>,
                            \<lparr>task_id = ''c'', targetWidth = 48, targetHeight = 58\<rparr>,
                            \<lparr>task_id = ''d'', targetWidth = 28, targetHeight = 28\<rparr>] 100 2)"
proof -
  let ?rb = "\<lparr>pr_x = 0, pr_y = 0, pr_w = 50, pr_h = 70,
             pr_task = \<lparr>task_id = ''b'', targetWidth = 50, targetHeight = 70\<rparr>\<rparr>"
  let ?rd = "\<lparr>pr_x = 52, pr_y = 0, pr_w = 28, pr_h = 28,
             pr_task = \<lparr>task_id = ''d'', targetWidth = 28, targetHeight = 28\<rparr>\<rparr>"
  let ?pg = "\<lparr>page_id = 0, page_width = 100, page_height = 100,
        page_items = [?rb, ?rd], page_efficiency = Num (1507298500285563 / 35184372088832)\<rparr>"
  let ?T = "[\<lparr>task_id = ''b'', targetWidth = 50, targetHeight = 70\<rparr>,
             \<lparr>task_id = ''c'', targetWidth = 48, targetHeight = 58\<rparr>,
             \<lparr>task_id = ''d'', targetWidth = 28, targetHeight = 28\<rparr>]"
  have pg: "?pg \<in> set (packAtlases ?T 100 2)"
    by code_simp
  have pad: "(0::int) \<le> 2"
    by simp
  note t = placements_disjoint_and_contained[OF pad pg]
  have "\<not> overlaps (page_items ?pg ! 0) (page_items ?pg ! 1)"
    using t[THEN conjunct1, rule_format, of 0 1] by simp
  moreover have "pr_x ?rd + pr_w ?rd \<le> 100"
    using t[THEN conjunct2, rule_format, of ?rd] by simp
  ultimately show ?thesis
    using pg by simp
qed

text \<open>
  C2. An item no larger than the page can be left out. With page size 2048 and padding 2
  the item a of 2048 x 100 passes the test on width and height, but the footprint
  2050 x 102 that insert asks for fits no page: a is in no placement, the smaller item b
  is placed on page 0, and the pass over a alone gives the empty page 1, after which the
  loop stops.
\<close>

theorem padding_gap_item_dropped:
  "packAtlases [\<lparr>task_id = ''a'', targetWidth = 2048, targetHeight = 100\<rparr>,
                \<lparr>task_id = ''b'', targetWidth = 100, targetHeight = 100\<rparr>] 2048 2
     = [\<lparr>page_id = 0, page_width = 2048, page_height = 2048,
         page_items = [\<lparr>pr_x = 0, pr_y = 0, pr_w = 100, pr_h = 100,
                         pr_task = \<lparr>task_id = ''b'', targetWidth = 100, targetHeight = 100\<rparr>\<rparr>],
         page_efficiency = Num (15625 / 65536)\<rparr>,
        \<lparr>page_id = 1, page_width = 2048, page_height = 2048, page_items = [],
         page_efficiency = Num 0\<rparr>]"
  by code_simp

text \<open>
  C3. An item wider or taller than the page is the task of no placement of any returned
  page, and the efficiency of a page is computed from the placements of that page alone.
  For the single item (2049, 100, big) and page size 2048, no placement refers to big.
\<close>

theorem oversized_never_placed:
  "(\<forall>pg \<in> set (packAtlases tasks maxSize padding).
      (\<forall>t. targetWidth t > maxSize \<or> targetHeight t > maxSize \<longrightarrow>
           t \<notin> pr_task ` set (page_items pg)) \<and>
      page_efficiency pg =
        js_times (js_divide (sum_list (map (\<lambda>r. pr_w r * pr_h r) (page_items pg)))
                            (maxSize * maxSize)) 100) \<and>
   (\<forall>pg \<in> set (packAtlases [\<lparr>task_id = ''big'', targetWidth = 2049, targetHeight = 100\<rparr>]
                     2048 padding).
      \<forall>r \<in> set (page_items pg). task_id (pr_task r) \<noteq> ''big'')"
proof -
  have gen: "(\<forall>t. targetWidth t > S \<or> targetHeight t > S \<longrightarrow> t \<notin> pr_task ` set (page_items pg)) \<and>
      page_efficiency pg =
        js_times (js_divide (sum_list (map (\<lambda>r. pr_w r * pr_h r) (page_items pg))) (S * S)) 100"
    if "pg \<in> set (packAtlases ts S padding)" for pg ts S
  proof -
    from that obtain rem idx where pg: "pg = buildPage idx S (fst (passOf rem S padding))"
      by (rule packAtlases_pages)
    have "\<forall>r \<in> set (page_items pg). \<not> oversized S (pr_task r)"
      using passOf_not_oversized by (simp add: pg buildPage_simps)
    then show ?thesis
      by (auto simp: pg buildPage_simps oversized_def simp del: js_divide.simps)
  qed
  have "sortedTasks [\<lparr>task_id = ''big'', targetWidth = 2049, targetHeight = 100\<rparr>] \<noteq> []"
    and "\<forall>t \<in> set (sortedTasks [\<lparr>task_id = ''big'', targetWidth = 2049, targetHeight = 100\<rparr>]).
           oversized 2048 t"
    by (simp_all add: oversized_def)
  then have "packAtlases [\<lparr>task_id = ''big'', targetWidth = 2049, targetHeight = 100\<rparr>] 2048 padding
      = [buildPage 0 2048 []]"
    by (simp add: packAtlases_def packAtlases_loop_all_oversized)
  then have "\<forall>pg \<in> set (packAtlases [\<lparr>task_id = ''big'', targetWidth = 2049, targetHeight = 100\<rparr>]
                     2048 padding).
      \<forall>r \<in> set (page_items pg). task_id (pr_task r) \<noteq> ''big''"
    by (simp add: buildPage_simps)
  with gen show ?thesis by blast
qed


theorem oversized_never_placed_witness:
  "\<lparr>page_id = 0, page_width = 2048, page_height = 2048,
     page_items = [\<lparr>pr_x = 0, pr_y = 0, pr_w = 100, pr_h = 100,
                    pr_task = \<lparr>task_id = ''a'', targetWidth = 100, targetHeight = 100\<rparr>\<rparr>],
     page_efficiency = Num (15625 / 65536)\<rparr>
     \<in> set (packAtlases [\<lparr>task_id = ''big'', targetWidth = 2049, targetHeight = 100\<rparr>,
                          \<lparr>task_id = ''a'', targetWidth = 100, targetHeight = 100\<rparr>] 2048 2)
   \<and> \<lparr>task_id = ''big'', targetWidth = 2049, targetHeight = 100\<rparr>
       \<notin> pr_task ` set [\<lparr>pr_x = 0, pr_y = 0, pr_w = 100, pr_h = 100,
                    pr_task = \<lparr>task_id = ''a'', targetWidth = 100, targetHeight = 100\<rparr>\<rparr>]"
proof -
  have m: "\<lparr>page_id = 0, page_width = 2048, page_height = 2048,
     page_items = [\<lparr>pr_x = 0, pr_y = 0, pr_w = 100, pr_h = 100,
                    pr_task = \<lparr>task_id = ''a'', targetWidth = 100, targetHeight = 100\<rparr>\<rparr>],
     page_efficiency = Num (15625 / 65536)\<rparr>
     \<in> set (packAtlases [\<lparr>task_id = ''big'', targetWidth = 2049, targetHeight = 100\<rparr>,
                          \<lparr>task_id = ''a'', targetWidth = 100, targetHeight = 100\<rparr>] 2048 2)"
    by code_simp
  show ?thesis
    using m oversized_never_placed
      [of "[\<lparr>task_id = ''big'', targetWidth = 2049, targetHeight = 100\<rparr>,
            \<lparr>task_id = ''a'', targetWidth = 100, targetHeight = 100\<rparr>]" 2048 2]
    by simp
qed

text \<open>
  C4. packAtlases validates nothing. With page size 0 and padding -1 the call returns
  normally, with one page whose efficiency is NaN.
\<close>

theorem no_input_validation_counterexample:
  "packAtlases_call [\<lparr>task_id = ''a'', targetWidth = 1, targetHeight = 1\<rparr>] 0 (- 1)
     = Returned [\<lparr>page_id = 0, page_width = 0, page_height = 0, page_items = [],
                  page_efficiency = NaN\<rparr>]"
  unfolding packAtlases_call_def by code_simp

text \<open>
  C4, as the code has it: packAtlases checks neither the page size nor the padding and
  raises no error for them. For items that are records of integers: the empty list
  returns no page; with a page size of zero or less, a non-empty list of items of
  positive width and height returns exactly one page without placements, of efficiency 0,
  or NaN when the page size is 0; with a negative padding the call returns pages in which
  every item not larger than the page is the task of exactly one placement, and a larger
  item of none.
\<close>

theorem no_input_validation:
  "packAtlases_call [] maxSize padding = Returned [] \<and>
   (maxSize \<le> 0 \<and> tasks \<noteq> [] \<and> (\<forall>t \<in> set tasks. 0 < targetWidth t \<and> 0 < targetHeight t) \<longrightarrow>
      packAtlases_call tasks maxSize padding
        = Returned [\<lparr>page_id = 0, page_width = maxSize, page_height = maxSize, page_items = [],
                     page_efficiency = (if maxSize = 0 then NaN else Num 0)\<rparr>]) \<and>
   (padding < 0 \<longrightarrow>
      (\<exists>pages. packAtlases_call tasks maxSize padding = Returned pages \<and>
         mset (map pr_task (concat (map page_items pages)))
           = mset (filter (\<lambda>t. \<not> (targetWidth t > maxSize \<or> targetHeight t > maxSize)) tasks)))"
proof (intro conjI impI)
  show "packAtlases_call [] maxSize padding = Returned []"
    by (simp add: packAtlases_call_def packAtlases_def sortedTasks_def)
next
  assume a: "maxSize \<le> 0 \<and> tasks \<noteq> [] \<and> (\<forall>t \<in> set tasks. 0 < targetWidth t \<and> 0 < targetHeight t)"
  then have "sortedTasks tasks \<noteq> []" and "\<forall>t \<in> set (sortedTasks tasks). oversized maxSize t"
    by (auto simp: oversized_def)
  then have "packAtlases tasks maxSize padding = [buildPage 0 maxSize []]"
    by (simp add: packAtlases_def packAtlases_loop_all_oversized)
  moreover have "buildPage 0 maxSize []
      = \<lparr>page_id = 0, page_width = maxSize, page_height = maxSize, page_items = [],
         page_efficiency = (if maxSize = 0 then NaN else Num 0)\<rparr>"
    by (simp add: buildPage_def)
  ultimately show "packAtlases_call tasks maxSize padding
        = Returned [\<lparr>page_id = 0, page_width = maxSize, page_height = maxSize, page_items = [],
                     page_efficiency = (if maxSize = 0 then NaN else Num 0)\<rparr>]"
    by (simp add: packAtlases_call_def)
next
  assume neg: "padding < 0"
  have "\<forall>t \<in> set tasks. \<not> oversized maxSize t \<longrightarrow> fitsPadded maxSize padding t"
    using neg by (auto simp: oversized_def fitsPadded_def)
  then have "mset (placedTasks (packAtlases tasks maxSize padding))
           = mset (filter (\<lambda>t. \<not> oversized maxSize t) tasks)"
    by (rule packAtlases_conservation)
  then have "mset (map pr_task (concat (map page_items (packAtlases tasks maxSize padding))))
           = mset (filter (\<lambda>t. \<not> (targetWidth t > maxSize \<or> targetHeight t > maxSize)) tasks)"
    by (simp add: placedTasks_def oversized_def)
  then show "\<exists>pages. packAtlases_call tasks maxSize padding = Returned pages \<and>
         mset (map pr_task (concat (map page_items pages)))
           = mset (filter (\<lambda>t. \<not> (targetWidth t > maxSize \<or> targetHeight t > maxSize)) tasks)"
    by (simp add: packAtlases_call_def)
qed

theorem no_input_validation_witness:
  "packAtlases_call [\<lparr>task_id = ''a'', targetWidth = 3, targetHeight = 4\<rparr>] (- 5) (- 1)
     = Returned [\<lparr>page_id = 0, page_width = - 5, page_height = - 5, page_items = [],
                  page_efficiency = Num 0\<rparr>]
   \<and> mset (map pr_task (concat (map page_items
          (packAtlases [\<lparr>task_id = ''a'', targetWidth = 3, targetHeight = 4\<rparr>,
                        \<lparr>task_id = ''big'', targetWidth = 20, targetHeight = 1\<rparr>] 10 (- 1)))))
     = mset [\<lparr>task_id = ''a'', targetWidth = 3, targetHeight = 4\<rparr>]"
proof -
  have 1: "packAtlases_call [\<lparr>task_id = ''a'', targetWidth = 3, targetHeight = 4\<rparr>] (- 5) (- 1)
     = Returned [\<lparr>page_id = 0, page_width = - 5, page_height = - 5, page_items = [],
                  page_efficiency = Num 0\<rparr>]"
    using no_input_validation[of "- 5" "- 1" "[\<lparr>task_id = ''a'', targetWidth = 3, targetHeight = 4\<rparr>]"]
    by simp
  have 2: "mset (map pr_task (concat (map page_items
          (packAtlases [\<lparr>task_id = ''a'', targetWidth = 3, targetHeight = 4\<rparr>,
                        \<lparr>task_id = ''big'', targetWidth = 20, targetHeight = 1\<rparr>] 10 (- 1)))))
     = mset [\<lparr>task_id = ''a'', targetWidth = 3, targetHeight = 4\<rparr>]"
    using no_input_validation[of 10 "- 1" "[\<lparr>task_id = ''a'', targetWidth = 3, targetHeight = 4\<rparr>,
                        \<lparr>task_id = ''big'', targetWidth = 20, targetHeight = 1\<rparr>]"]
    by (simp add: packAtlases_call_def)
  from 1 2 show ?thesis by (rule conjI)
qed



text \<open>
  C6. The efficiency is computed in doubles: the quotient of the used area by the page
  area is rounded, and so is its product with 100. For the single item 7 x 1 on a page of
  size 10 the result is the double 7.000000000000001, which is not 100 * 7 / 100.
\<close>

theorem efficiency_rounded_counterexample:
  "packAtlases [\<lparr>task_id = ''a'', targetWidth = 7, targetHeight = 1\<rparr>] 10 0
     = [\<lparr>page_id = 0, page_width = 10, page_height = 10,
         page_items = [\<lparr>pr_x = 0, pr_y = 0, pr_w = 7, pr_h = 1,
                         pr_task = \<lparr>task_id = ''a'', targetWidth = 7, targetHeight = 1\<rparr>\<rparr>],
         page_efficiency = Num (7881299347898369 / 1125899906842624)\<rparr>]
   \<and> (7881299347898369 / 1125899906842624 :: rat) \<noteq> 100 * of_int (7 * 1) / of_int (10 * 10)"
proof -
  have "packAtlases [\<lparr>task_id = ''a'', targetWidth = 7, targetHeight = 1\<rparr>] 10 0
     = [\<lparr>page_id = 0, page_width = 10, page_height = 10,
         page_items = [\<lparr>pr_x = 0, pr_y = 0, pr_w = 7, pr_h = 1,
                         pr_task = \<lparr>task_id = ''a'', targetWidth = 7, targetHeight = 1\<rparr>\<rparr>],
         page_efficiency = Num (7881299347898369 / 1125899906842624)\<rparr>]"
    by code_simp
  moreover have "(7881299347898369 / 1125899906842624 :: rat) \<noteq> 100 * of_int (7 * 1) / of_int (10 * 10)"
    by simp
  ultimately show ?thesis by (rule conjI)
qed

text \<open>
  C6, as the code has it: for a positive page size whose square is at most 2^53, a
  padding that is not negative and items of positive width and height, the efficiency of
  every returned page is the double (used / total) * 100, where used is the sum of
  width * height over the placements of the page, total is page size * page size, and the
  quotient and the product are each rounded to the nearest double. It differs from
  100 * used / total by at most that number divided by 2^51, it lies between 0 and 100,
  and it is 0 exactly when the page has no placement.
\<close>

theorem efficiency_rounded_and_bounds:
  assumes "0 < maxSize" and "maxSize * maxSize \<le> 2 ^ 53" and "0 \<le> padding"
    and "\<forall>t \<in> set tasks. 0 < targetWidth t \<and> 0 < targetHeight t"
    and "pg \<in> set (packAtlases tasks maxSize padding)"
  shows "\<exists>e. page_efficiency pg = Num e \<and>
             Num e = js_times (js_divide (sum_list (map (\<lambda>r. pr_w r * pr_h r) (page_items pg)))
                                         (maxSize * maxSize)) 100 \<and>
             \<bar>e - 100 * of_int (sum_list (map (\<lambda>r. pr_w r * pr_h r) (page_items pg)))
                    / of_int (maxSize * maxSize)\<bar>
               \<le> (100 * of_int (sum_list (map (\<lambda>r. pr_w r * pr_h r) (page_items pg)))
                    / of_int (maxSize * maxSize)) / 2 ^ 51 \<and>
             0 \<le> e \<and> e \<le> 100 \<and> (e = 0 \<longleftrightarrow> page_items pg = [])"
proof -
  from assms(5) obtain rem idx where sub: "subseq rem (sortedTasks tasks)"
    and pg: "pg = buildPage idx maxSize (fst (passOf rem maxSize padding))"
    by (rule packAtlases_pages)
  let ?items = "fst (passOf rem maxSize padding)"
  let ?used = "sum_list (map (\<lambda>r. pr_w r * pr_h r) ?items)"
  let ?total = "maxSize * maxSize"
  have items: "page_items pg = ?items"
    by (simp add: pg buildPage_simps)
  have eff: "page_efficiency pg = js_times (js_divide ?used ?total) 100"
    by (simp only: pg buildPage_simps)
  have total: "0 < ?total"
    using assms(1) by simp
  have pos: "0 < pr_w r \<and> 0 < pr_h r" if "r \<in> set ?items" for r
  proof -
    have "pr_task r \<in> set tasks"
      using passOf_dims[OF that] subseq_set[OF sub] by auto
    then show ?thesis
      using passOf_dims[OF that] assms(4) by simp
  qed
  have area_pos: "\<forall>r \<in> set ?items. 0 < pr_w r * pr_h r"
    using pos by simp
  have apart: "sorted_wrt (\<lambda>a b. \<not> overlaps a b \<and> \<not> overlaps b a) ?items"
    using assms(3) by (rule passOf_no_overlap)
  have "\<forall>r \<in> set ?items. 0 \<le> pr_w r \<and> 0 \<le> pr_h r"
    using pos by (simp add: less_imp_le)
  moreover have "\<forall>r \<in> set ?items. 0 \<le> pr_x r \<and> 0 \<le> pr_y r \<and>
            pr_x r + pr_w r \<le> maxSize \<and> pr_y r + pr_h r \<le> maxSize"
    using assms(3) passOf_contained by blast
  ultimately have le: "?used \<le> ?total"
    using assms(1) apart by (intro area_sum_le_page) simp_all
  have ge: "0 \<le> ?used"
    using area_pos by (intro sum_list_nonneg) (auto simp: less_imp_le)
  have zero: "?used = 0 \<longleftrightarrow> ?items = []"
    using area_pos by (rule sum_list_pos_iff)
  from efficiency_value[OF ge le total assms(2)]
  obtain e where e: "js_times (js_divide ?used ?total) 100 = Num e" "0 \<le> e" "e \<le> 100"
      "e = 0 \<longleftrightarrow> ?used = 0"
      "\<bar>e - 100 * of_int ?used / of_int ?total\<bar> \<le> (100 * of_int ?used / of_int ?total) / 2 ^ 51"
    by blast
  have "page_efficiency pg = Num e \<and>
        Num e = js_times (js_divide ?used ?total) 100 \<and>
        \<bar>e - 100 * of_int ?used / of_int ?total\<bar> \<le> (100 * of_int ?used / of_int ?total) / 2 ^ 51 \<and>
        0 \<le> e \<and> e \<le> 100 \<and> (e = 0 \<longleftrightarrow> ?items = [])"
    using e zero eff by simp
  then show ?thesis
    unfolding items by (intro exI[of _ e])
qed

theorem efficiency_rounded_and_bounds_witness:
  "\<lparr>page_id = 0, page_width = 10, page_height = 10,
      page_items = [\<lparr>pr_x = 0, pr_y = 0, pr_w = 7, pr_h = 1,
                      pr_task = \<lparr>task_id = ''a'', targetWidth = 7, targetHeight = 1\<rparr>\<rparr>],
      page_efficiency = Num (7881299347898369 / 1125899906842624)\<rparr>
     \<in> set (packAtlases [\<lparr>task_id = ''a'', targetWidth = 7, targetHeight = 1\<rparr>] 10 0)
   \<and> \<bar>(7881299347898369 / 1125899906842624 :: rat) - 100 * of_int (7 * 1) / of_int (10 * 10)\<bar>
       \<le> (100 * of_int (7 * 1) / of_int (10 * 10)) / 2 ^ 51
   \<and> (7881299347898369 / 1125899906842624 :: rat) \<le> 100"
proof -
  let ?T = "[\<lparr>task_id = ''a'', targetWidth = 7, targetHeight = 1\<rparr>]"
  let ?pg = "\<lparr>page_id = 0, page_width = 10, page_height = 10,
      page_items = [\<lparr>pr_x = 0, pr_y = 0, pr_w = 7, pr_h = 1,
                      pr_task = \<lparr>task_id = ''a'', targetWidth = 7, targetHeight = 1\<rparr>\<rparr>],
      page_efficiency = Num (7881299347898369 / 1125899906842624)\<rparr>"
  have pg: "?pg \<in> set (packAtlases ?T 10 0)"
    by code_simp
  have size: "(0::int) < 10" and area: "(10::int) * 10 \<le> 2 ^ 53" and pad: "(0::int) \<le> 0"
    and dims: "\<forall>t \<in> set ?T. 0 < targetWidth t \<and> 0 < targetHeight t"
    by simp_all
  from efficiency_rounded_and_bounds[OF size area pad dims pg]
  obtain e where e: "page_efficiency ?pg = Num e"
    and err: "\<bar>e - 100 * of_int (sum_list (map (\<lambda>r. pr_w r * pr_h r) (page_items ?pg)))
                    / of_int (10 * 10)\<bar>
               \<le> (100 * of_int (sum_list (map (\<lambda>r. pr_w r * pr_h r) (page_items ?pg)))
                    / of_int (10 * 10)) / 2 ^ 51"
    and hi: "e \<le> 100"
    by blast
  have "e = 7881299347898369 / 1125899906842624"
    using e by simp
  then show ?thesis
    using pg err hi by simp
qed

text \<open>
  C7. insert asks for the footprint (w + padding, h + padding). When no free region
  qualifies it returns null and leaves the packer as it was. Otherwise it takes the
  qualifying region of least score, the first such in the order of the free list: every
  qualifying region before it scores strictly more, every one after it at least as much.
  The placement recorded has the task's own width and height at the origin of that
  region, and the rectangle carved out of the free list is the footprint at that origin.
\<close>

theorem insert_best_short_side_fit:
  "((\<forall>f \<in> set (freeRects pk).
        \<not> qualifies f (targetWidth task + mp_padding pk) (targetHeight task + mp_padding pk)) \<longrightarrow>
      insertTask pk task = (None, pk)) \<and>
   ((\<exists>f \<in> set (freeRects pk).
        qualifies f (targetWidth task + mp_padding pk) (targetHeight task + mp_padding pk)) \<longrightarrow>
      (\<exists>pre f post. freeRects pk = pre @ f # post \<and>
         qualifies f (targetWidth task + mp_padding pk) (targetHeight task + mp_padding pk) \<and>
         (\<forall>g \<in> set pre.
            qualifies g (targetWidth task + mp_padding pk) (targetHeight task + mp_padding pk) \<longrightarrow>
            bssf_score f (targetWidth task + mp_padding pk) (targetHeight task + mp_padding pk)
              < bssf_score g (targetWidth task + mp_padding pk) (targetHeight task + mp_padding pk)) \<and>
         (\<forall>g \<in> set post.
            qualifies g (targetWidth task + mp_padding pk) (targetHeight task + mp_padding pk) \<longrightarrow>
            bssf_score f (targetWidth task + mp_padding pk) (targetHeight task + mp_padding pk)
              \<le> bssf_score g (targetWidth task + mp_padding pk) (targetHeight task + mp_padding pk)) \<and>
         insertTask pk task =
           (Some \<lparr>pr_x = rect_x f, pr_y = rect_y f,
                  pr_w = targetWidth task, pr_h = targetHeight task, pr_task = task\<rparr>,
            placeRect pk (usedRectAt f (targetWidth task + mp_padding pk)
                                       (targetHeight task + mp_padding pk)))))"
proof (intro conjI impI)
  let ?w = "targetWidth task + mp_padding pk" and ?h = "targetHeight task + mp_padding pk"
  assume "\<forall>f \<in> set (freeRects pk). \<not> qualifies f ?w ?h"
  then have "fst (findBestNode (freeRects pk) ?w ?h) = None"
    by (rule findBestNode_None)
  then show "insertTask pk task = (None, pk)"
    by (simp add: insertTask_def Let_def)
next
  let ?w = "targetWidth task + mp_padding pk" and ?h = "targetHeight task + mp_padding pk"
  assume "\<exists>f \<in> set (freeRects pk). qualifies f ?w ?h"
  then obtain pre f post where c: "freeRects pk = pre @ f # post" "qualifies f ?w ?h"
      "findBestNode (freeRects pk) ?w ?h = (Some (bssf_score f ?w ?h), usedRectAt f ?w ?h)"
      "\<forall>g \<in> set pre. qualifies g ?w ?h \<longrightarrow> bssf_score f ?w ?h < bssf_score g ?w ?h"
      "\<forall>g \<in> set post. qualifies g ?w ?h \<longrightarrow> bssf_score f ?w ?h \<le> bssf_score g ?w ?h"
    using findBestNode_Some by blast
  have "insertTask pk task =
           (Some \<lparr>pr_x = rect_x f, pr_y = rect_y f,
                  pr_w = targetWidth task, pr_h = targetHeight task, pr_task = task\<rparr>,
            placeRect pk (usedRectAt f ?w ?h))"
    by (simp add: insertTask_def Let_def c(3) usedRectAt_def)
  with c show "\<exists>pre f post. freeRects pk = pre @ f # post \<and> qualifies f ?w ?h \<and>
         (\<forall>g \<in> set pre. qualifies g ?w ?h \<longrightarrow> bssf_score f ?w ?h < bssf_score g ?w ?h) \<and>
         (\<forall>g \<in> set post. qualifies g ?w ?h \<longrightarrow> bssf_score f ?w ?h \<le> bssf_score g ?w ?h) \<and>
         insertTask pk task =
           (Some \<lparr>pr_x = rect_x f, pr_y = rect_y f,
                  pr_w = targetWidth task, pr_h = targetHeight task, pr_task = task\<rparr>,
            placeRect pk (usedRectAt f ?w ?h))"
    by blast
qed


theorem insert_best_short_side_fit_witness:
  "insertTask
     \<lparr>mp_width = 100, mp_height = 100, mp_padding = 2,
      freeRects = [\<lparr>rect_x = 50, rect_y = 0, rect_width = 50, rect_height = 100\<rparr>,
                   \<lparr>rect_x = 0, rect_y = 80, rect_width = 30, rect_height = 20\<rparr>,
                   \<lparr>rect_x = 70, rect_y = 80, rect_width = 30, rect_height = 20\<rparr>],
      packedRects = []\<rparr>
     \<lparr>task_id = ''d'', targetWidth = 28, targetHeight = 18\<rparr>
   = (Some \<lparr>pr_x = 0, pr_y = 80, pr_w = 28, pr_h = 18,
             pr_task = \<lparr>task_id = ''d'', targetWidth = 28, targetHeight = 18\<rparr>\<rparr>,
      placeRect
        \<lparr>mp_width = 100, mp_height = 100, mp_padding = 2,
         freeRects = [\<lparr>rect_x = 50, rect_y = 0, rect_width = 50, rect_height = 100\<rparr>,
                      \<lparr>rect_x = 0, rect_y = 80, rect_width = 30, rect_height = 20\<rparr>,
                      \<lparr>rect_x = 70, rect_y = 80, rect_width = 30, rect_height = 20\<rparr>],
         packedRects = []\<rparr>
        \<lparr>rect_x = 0, rect_y = 80, rect_width = 30, rect_height = 20\<rparr>)
   \<and> insertTask
       \<lparr>mp_width = 100, mp_height = 100, mp_padding = 2,
        freeRects = [\<lparr>rect_x = 50, rect_y = 0, rect_width = 50, rect_height = 100\<rparr>],
        packedRects = []\<rparr>
       \<lparr>task_id = ''a'', targetWidth = 60, targetHeight = 60\<rparr>
     = (None,
        \<lparr>mp_width = 100, mp_height = 100, mp_padding = 2,
         freeRects = [\<lparr>rect_x = 50, rect_y = 0, rect_width = 50, rect_height = 100\<rparr>],
         packedRects = []\<rparr>)"
proof -
  let ?A = "\<lparr>rect_x = 50, rect_y = 0, rect_width = 50, rect_height = 100\<rparr>"
  let ?B = "\<lparr>rect_x = 0, rect_y = 80, rect_width = 30, rect_height = 20\<rparr>"
  let ?C = "\<lparr>rect_x = 70, rect_y = 80, rect_width = 30, rect_height = 20\<rparr>"
  let ?pk = "\<lparr>mp_width = 100, mp_height = 100, mp_padding = 2,
              freeRects = [?A, ?B, ?C], packedRects = []\<rparr>"
  let ?pk1 = "\<lparr>mp_width = 100, mp_height = 100, mp_padding = 2,
              freeRects = [?A], packedRects = []\<rparr>"
  let ?d = "\<lparr>task_id = ''d'', targetWidth = 28, targetHeight = 18\<rparr>"
  let ?a = "\<lparr>task_id = ''a'', targetWidth = 60, targetHeight = 60\<rparr>"
  have ex: "\<exists>f \<in> set (freeRects ?pk).
          qualifies f (targetWidth ?d + mp_padding ?pk) (targetHeight ?d + mp_padding ?pk)"
    by (simp add: qualifies_def)
  have "\<exists>pre f post. freeRects ?pk = pre @ f # post \<and>
         qualifies f (targetWidth ?d + mp_padding ?pk) (targetHeight ?d + mp_padding ?pk) \<and>
         (\<forall>g \<in> set pre.
            qualifies g (targetWidth ?d + mp_padding ?pk) (targetHeight ?d + mp_padding ?pk) \<longrightarrow>
            bssf_score f (targetWidth ?d + mp_padding ?pk) (targetHeight ?d + mp_padding ?pk)
              < bssf_score g (targetWidth ?d + mp_padding ?pk) (targetHeight ?d + mp_padding ?pk)) \<and>
         (\<forall>g \<in> set post.
            qualifies g (targetWidth ?d + mp_padding ?pk) (targetHeight ?d + mp_padding ?pk) \<longrightarrow>
            bssf_score f (targetWidth ?d + mp_padding ?pk) (targetHeight ?d + mp_padding ?pk)
              \<le> bssf_score g (targetWidth ?d + mp_padding ?pk) (targetHeight ?d + mp_padding ?pk)) \<and>
         insertTask ?pk ?d =
           (Some \<lparr>pr_x = rect_x f, pr_y = rect_y f,
                  pr_w = targetWidth ?d, pr_h = targetHeight ?d, pr_task = ?d\<rparr>,
            placeRect ?pk (usedRectAt f (targetWidth ?d + mp_padding ?pk)
                                       (targetHeight ?d + mp_padding ?pk)))"
    using insert_best_short_side_fit[of ?pk ?d, THEN conjunct2] ex by (rule mp)
  then obtain pre f post where c: "[?A, ?B, ?C] = pre @ f # post"
    "\<forall>g \<in> set pre. qualifies g 30 20 \<longrightarrow> bssf_score f 30 20 < bssf_score g 30 20"
    "\<forall>g \<in> set post. qualifies g 30 20 \<longrightarrow> bssf_score f 30 20 \<le> bssf_score g 30 20"
    "insertTask ?pk ?d =
           (Some \<lparr>pr_x = rect_x f, pr_y = rect_y f, pr_w = 28, pr_h = 18, pr_task = ?d\<rparr>,
            placeRect ?pk (usedRectAt f 30 20))"
    by (elim exE conjE) simp
  from c(1) consider "pre = [] \<and> f = ?A \<and> post = [?B, ?C]"
    | "pre = [?A] \<and> f = ?B \<and> post = [?C]"
    | "pre = [?A, ?B] \<and> f = ?C \<and> post = []"
    by (auto simp: Cons_eq_append_conv)
  then have "f = ?B"
  proof cases
    case 1
    then show ?thesis using c(3) by (simp add: qualifies_def bssf_score_def)
  next
    case 2
    then show ?thesis by simp
  next
    case 3
    then show ?thesis using c(2) by (simp add: qualifies_def bssf_score_def)
  qed
  then have 1: "insertTask ?pk ?d =
           (Some \<lparr>pr_x = 0, pr_y = 80, pr_w = 28, pr_h = 18, pr_task = ?d\<rparr>,
            placeRect ?pk ?B)"
    using c(4) by (simp add: usedRectAt_def)
  have "\<forall>f \<in> set (freeRects ?pk1).
          \<not> qualifies f (targetWidth ?a + mp_padding ?pk1) (targetHeight ?a + mp_padding ?pk1)"
    by (simp add: qualifies_def)
  with insert_best_short_side_fit[of ?pk1 ?a] have 2: "insertTask ?pk1 ?a = (None, ?pk1)"
    by blast
  from 1 2 show ?thesis by blast
qed

text \<open>
  C8. The items are attempted in descending height, items of equal height in input
  order. The tasks placed on a page follow the sorted list, and the tasks placed in a
  pass and the tasks it leaves over follow the list the pass went through. Every item
  of that list that is not oversized is either placed on the page of the pass or left
  over, as often as it occurs: an item that is not placed is carried over. The next pass
  goes through exactly the tasks left over.
\<close>

theorem attempt_order:
  "sorted_wrt (\<lambda>a b. targetHeight a \<ge> targetHeight b) (sortedTasks tasks) \<and>
   mset (sortedTasks tasks) = mset tasks \<and>
   filter (\<lambda>t. targetHeight t = k) (sortedTasks tasks) = filter (\<lambda>t. targetHeight t = k) tasks \<and>
   packAtlases tasks maxSize padding = packAtlases_loop (sortedTasks tasks) maxSize padding [] 0 \<and>
   (\<forall>pg \<in> set (packAtlases tasks maxSize padding).
      subseq (map pr_task (page_items pg)) (sortedTasks tasks)) \<and>
   subseq (map pr_task (fst (passOf remaining maxSize padding))) remaining \<and>
   subseq (snd (passOf remaining maxSize padding)) remaining \<and>
   mset (map pr_task (fst (passOf remaining maxSize padding)))
       + mset (snd (passOf remaining maxSize padding))
     = mset (filter (\<lambda>t. \<not> (targetWidth t > maxSize \<or> targetHeight t > maxSize)) remaining) \<and>
   (\<forall>t \<in> set remaining.
      \<not> (targetWidth t > maxSize \<or> targetHeight t > maxSize) \<and>
      t \<notin> pr_task ` set (fst (passOf remaining maxSize padding)) \<longrightarrow>
      t \<in> set (snd (passOf remaining maxSize padding))) \<and>
   (remaining \<noteq> [] \<and>
    (fst (passOf remaining maxSize padding) \<noteq> []
       \<or> length (snd (passOf remaining maxSize padding)) \<noteq> length remaining) \<longrightarrow>
    packAtlases_loop remaining maxSize padding pages currentPageIndex
      = packAtlases_loop (snd (passOf remaining maxSize padding)) maxSize padding
          (pages @ [buildPage currentPageIndex maxSize (fst (passOf remaining maxSize padding))])
          (Suc currentPageIndex))"
proof -
  let ?pass = "passOf remaining maxSize padding"
  have c1: "sorted_wrt (\<lambda>a b. targetHeight a \<ge> targetHeight b) (sortedTasks tasks)"
    by (rule sortedTasks_sorted)
  have c2: "mset (sortedTasks tasks) = mset tasks"
    by (simp add: sortedTasks_def)
  have c3: "filter (\<lambda>t. targetHeight t = k) (sortedTasks tasks) = filter (\<lambda>t. targetHeight t = k) tasks"
    by (rule sortedTasks_stable)
  have c4: "packAtlases tasks maxSize padding = packAtlases_loop (sortedTasks tasks) maxSize padding [] 0"
    by (simp add: packAtlases_def)
  have c5: "\<forall>pg \<in> set (packAtlases tasks maxSize padding).
      subseq (map pr_task (page_items pg)) (sortedTasks tasks)"
  proof
    fix pg assume "pg \<in> set (packAtlases tasks maxSize padding)"
    then obtain rem idx where sub: "subseq rem (sortedTasks tasks)"
      and pg: "pg = buildPage idx maxSize (fst (passOf rem maxSize padding))"
      by (rule packAtlases_pages)
    have "subseq (map pr_task (page_items pg)) rem"
      by (simp add: pg buildPage_simps passOf_items_subseq)
    then show "subseq (map pr_task (page_items pg)) (sortedTasks tasks)"
      using sub subseq_order.trans by blast
  qed
  have c6: "subseq (map pr_task (fst ?pass)) remaining"
    by (rule passOf_items_subseq)
  have c7: "subseq (snd ?pass) remaining"
    by (rule passOf_snd_subseq)
  have c8: "mset (map pr_task (fst ?pass)) + mset (snd ?pass)
     = mset (filter (\<lambda>t. \<not> (targetWidth t > maxSize \<or> targetHeight t > maxSize)) remaining)"
    using passOf_conservation[of remaining maxSize padding] by (simp only: oversized_def)
  have c9: "\<forall>t \<in> set remaining.
      \<not> (targetWidth t > maxSize \<or> targetHeight t > maxSize) \<and>
      t \<notin> pr_task ` set (fst ?pass) \<longrightarrow> t \<in> set (snd ?pass)"
  proof (intro ballI impI)
    fix t
    assume t: "t \<in> set remaining"
      and n: "\<not> (targetWidth t > maxSize \<or> targetHeight t > maxSize) \<and>
              t \<notin> pr_task ` set (fst ?pass)"
    then have "t \<in># mset (filter (\<lambda>t. \<not> (targetWidth t > maxSize \<or> targetHeight t > maxSize)) remaining)"
      by simp
    then have "t \<in># mset (map pr_task (fst ?pass)) + mset (snd ?pass)"
      by (simp only: c8)
    then show "t \<in> set (snd ?pass)"
      using n by auto
  qed
  have c10: "remaining \<noteq> [] \<and>
    (fst ?pass \<noteq> [] \<or> length (snd ?pass) \<noteq> length remaining) \<longrightarrow>
    packAtlases_loop remaining maxSize padding pages currentPageIndex
      = packAtlases_loop (snd ?pass) maxSize padding
          (pages @ [buildPage currentPageIndex maxSize (fst ?pass)]) (Suc currentPageIndex)"
    using packAtlases_loop_step by blast
  show ?thesis
    by (intro conjI; fact)
qed

theorem attempt_order_witness:
  "sortedTasks [\<lparr>task_id = ''a'', targetWidth = 60, targetHeight = 60\<rparr>,
                \<lparr>task_id = ''b'', targetWidth = 50, targetHeight = 70\<rparr>,
                \<lparr>task_id = ''c'', targetWidth = 50, targetHeight = 60\<rparr>,
                \<lparr>task_id = ''d'', targetWidth = 30, targetHeight = 30\<rparr>]
     = [\<lparr>task_id = ''b'', targetWidth = 50, targetHeight = 70\<rparr>,
        \<lparr>task_id = ''a'', targetWidth = 60, targetHeight = 60\<rparr>,
        \<lparr>task_id = ''c'', targetWidth = 50, targetHeight = 60\<rparr>,
        \<lparr>task_id = ''d'', targetWidth = 30, targetHeight = 30\<rparr>]
   \<and> subseq [\<lparr>task_id = ''b'', targetWidth = 50, targetHeight = 70\<rparr>,
              \<lparr>task_id = ''c'', targetWidth = 50, targetHeight = 60\<rparr>,
              \<lparr>task_id = ''d'', targetWidth = 30, targetHeight = 30\<rparr>]
             [\<lparr>task_id = ''b'', targetWidth = 50, targetHeight = 70\<rparr>,
              \<lparr>task_id = ''a'', targetWidth = 60, targetHeight = 60\<rparr>,
              \<lparr>task_id = ''c'', targetWidth = 50, targetHeight = 60\<rparr>,
              \<lparr>task_id = ''d'', targetWidth = 30, targetHeight = 30\<rparr>]
   \<and> packAtlases_loop
         [\<lparr>task_id = ''b'', targetWidth = 50, targetHeight = 70\<rparr>,
          \<lparr>task_id = ''a'', targetWidth = 60, targetHeight = 60\<rparr>,
          \<lparr>task_id = ''c'', targetWidth = 50, targetHeight = 60\<rparr>,
          \<lparr>task_id = ''d'', targetWidth = 30, targetHeight = 30\<rparr>] 100 0 [] 0
     = packAtlases_loop [\<lparr>task_id = ''a'', targetWidth = 60, targetHeight = 60\<rparr>] 100 0
         [buildPage 0 100
            [\<lparr>pr_x = 0, pr_y = 0, pr_w = 50, pr_h = 70,
               pr_task = \<lparr>task_id = ''b'', targetWidth = 50, targetHeight = 70\<rparr>\<rparr>,
             \<lparr>pr_x = 50, pr_y = 0, pr_w = 50, pr_h = 60,
               pr_task = \<lparr>task_id = ''c'', targetWidth = 50, targetHeight = 60\<rparr>\<rparr>,
             \<lparr>pr_x = 0, pr_y = 70, pr_w = 30, pr_h = 30,
               pr_task = \<lparr>task_id = ''d'', targetWidth = 30, targetHeight = 30\<rparr>\<rparr>]] 1
   \<and> \<lparr>task_id = ''a'', targetWidth = 60, targetHeight = 60\<rparr>
       \<in> set (snd (passOf
                [\<lparr>task_id = ''b'', targetWidth = 50, targetHeight = 70\<rparr>,
                 \<lparr>task_id = ''a'', targetWidth = 60, targetHeight = 60\<rparr>,
                 \<lparr>task_id = ''c'', targetWidth = 50, targetHeight = 60\<rparr>,
                 \<lparr>task_id = ''d'', targetWidth = 30, targetHeight = 30\<rparr>] 100 0))"
proof -
  let ?a = "\<lparr>task_id = ''a'', targetWidth = 60, targetHeight = 60\<rparr>"
  let ?b = "\<lparr>task_id = ''b'', targetWidth = 50, targetHeight = 70\<rparr>"
  let ?c = "\<lparr>task_id = ''c'', targetWidth = 50, targetHeight = 60\<rparr>"
  let ?d = "\<lparr>task_id = ''d'', targetWidth = 30, targetHeight = 30\<rparr>"
  let ?items = "[\<lparr>pr_x = 0, pr_y = 0, pr_w = 50, pr_h = 70, pr_task = ?b\<rparr>,
             \<lparr>pr_x = 50, pr_y = 0, pr_w = 50, pr_h = 60, pr_task = ?c\<rparr>,
             \<lparr>pr_x = 0, pr_y = 70, pr_w = 30, pr_h = 30, pr_task = ?d\<rparr>]"
  have s: "sortedTasks [?a, ?b, ?c, ?d] = [?b, ?a, ?c, ?d]"
    by code_simp
  have p: "passOf [?b, ?a, ?c, ?d] 100 0 = (?items, [?a])"
    by code_simp
  have pg: "buildPage 0 100 ?items \<in> set (packAtlases [?a, ?b, ?c, ?d] 100 0)"
    by code_simp
  have "subseq (map pr_task (page_items (buildPage 0 100 ?items))) (sortedTasks [?a, ?b, ?c, ?d])"
    using attempt_order[of "[?a, ?b, ?c, ?d]" 0 100 0 "[?b, ?a, ?c, ?d]" "[]" 0] pg by blast
  then have 1: "subseq [?b, ?c, ?d] [?b, ?a, ?c, ?d]"
    by (simp only: s buildPage_simps list.map PackedRect.simps)
  have 2: "packAtlases_loop [?b, ?a, ?c, ?d] 100 0 [] 0
     = packAtlases_loop [?a] 100 0 [buildPage 0 100 ?items] 1"
    using attempt_order[of "[?a, ?b, ?c, ?d]" 0 100 0 "[?b, ?a, ?c, ?d]" "[]" 0]
    by (simp add: p)
  have fstp: "fst (passOf [?b, ?a, ?c, ?d] 100 0) = ?items"
    by (simp add: p)
  have "?a \<in> set [?b, ?a, ?c, ?d]"
    and "\<not> (targetWidth ?a > 100 \<or> targetHeight ?a > 100) \<and>
         ?a \<notin> pr_task ` set (fst (passOf [?b, ?a, ?c, ?d] 100 0))"
    by (simp_all add: fstp)
  then have 3: "?a \<in> set (snd (passOf [?b, ?a, ?c, ?d] 100 0))"
    using attempt_order[of "[?a, ?b, ?c, ?d]" 0 100 0 "[?b, ?a, ?c, ?d]" "[]" 0] by blast
  from s 1 2 3 show ?thesis by blast
qed

text \<open>
  C9. The handler posts exactly one response and returns: the success with the pages when
  the packing function returns, the failure with the message when it throws. With
  packAtlases itself the response is the success with the pages of packAtlases.
\<close>

theorem onmessage_posts_one_response:
  "fst (onmessage_with pack e) = Returned () \<and>
   length (snd (onmessage_with pack e)) = 1 \<and>
   (\<forall>pages. pack (msg_tasks e) (msg_maxSize e) (msg_padding e) = Returned pages \<longrightarrow>
      snd (onmessage_with pack e) = [Success pages]) \<and>
   (\<forall>err. pack (msg_tasks e) (msg_maxSize e) (msg_padding e) = Thrown err \<longrightarrow>
      snd (onmessage_with pack e) = [Failure err]) \<and>
   onmessage e = (Returned (), [Success (packAtlases (msg_tasks e) (msg_maxSize e) (msg_padding e))])"
  by (cases "pack (msg_tasks e) (msg_maxSize e) (msg_padding e)")
     (simp_all add: onmessage_def onmessage_with_def packAtlases_call_def)

theorem onmessage_posts_one_response_witness:
  "snd (onmessage_with (\<lambda>tasks maxSize padding. Thrown ''RangeError: Maximum call stack size exceeded'')
          \<lparr>msg_tasks = [\<lparr>task_id = ''big'', targetWidth = 2049, targetHeight = 100\<rparr>],
           msg_maxSize = 2048, msg_padding = 2\<rparr>)
     = [Failure ''RangeError: Maximum call stack size exceeded'']
   \<and> snd (onmessage_with packAtlases_call
          \<lparr>msg_tasks = [\<lparr>task_id = ''big'', targetWidth = 2049, targetHeight = 100\<rparr>],
           msg_maxSize = 2048, msg_padding = 2\<rparr>)
     = [Success [\<lparr>page_id = 0, page_width = 2048, page_height = 2048, page_items = [],
                   page_efficiency = Num 0\<rparr>]]"
proof -
  let ?e = "\<lparr>msg_tasks = [\<lparr>task_id = ''big'', targetWidth = 2049, targetHeight = 100\<rparr>],
           msg_maxSize = 2048, msg_padding = 2\<rparr>"
  let ?boom = "\<lambda>(tasks::OptimizationTask list) (maxSize::int) (padding::int).
                 (Thrown ''RangeError: Maximum call stack size exceeded'' :: AtlasPage list outcome)"
  have "snd (onmessage_with ?boom ?e) = [Failure ''RangeError: Maximum call stack size exceeded'']"
    using onmessage_posts_one_response[of ?boom ?e] by simp
  moreover have "packAtlases_call (msg_tasks ?e) (msg_maxSize ?e) (msg_padding ?e)
      = Returned [\<lparr>page_id = 0, page_width = 2048, page_height = 2048, page_items = [],
                   page_efficiency = Num 0\<rparr>]"
    unfolding packAtlases_call_def by code_simp
  then have "snd (onmessage_with packAtlases_call ?e)
     = [Success [\<lparr>page_id = 0, page_width = 2048, page_height = 2048, page_items = [],
                   page_efficiency = Num 0\<rparr>]]"
    using onmessage_posts_one_response[of packAtlases_call ?e] by blast
  ultimately show ?thesis by blast
qed

text \<open>
  C10. An empty input gives no page. A non-empty input gives at least one page. When
  every item is oversized (and the page size is not zero, as the contract of pack asks),
  the result is exactly one page with no placement and efficiency 0.
\<close>

theorem packAtlases_empty_and_nonempty:
  "packAtlases [] maxSize padding = [] \<and>
   (tasks \<noteq> [] \<longrightarrow> packAtlases tasks maxSize padding \<noteq> []) \<and>
   (tasks \<noteq> [] \<and> maxSize \<noteq> 0 \<and>
      (\<forall>t \<in> set tasks. targetWidth t > maxSize \<or> targetHeight t > maxSize) \<longrightarrow>
    packAtlases tasks maxSize padding
      = [\<lparr>page_id = 0, page_width = maxSize, page_height = maxSize, page_items = [],
          page_efficiency = Num 0\<rparr>])"
proof (intro conjI impI)
  show "packAtlases [] maxSize padding = []"
    by (simp add: packAtlases_def sortedTasks_def)
next
  assume "tasks \<noteq> []"
  then have "sortedTasks tasks \<noteq> []" by simp
  then show "packAtlases tasks maxSize padding \<noteq> []"
    using packAtlases_loop_prefix[of "sortedTasks tasks" maxSize padding "[]" 0]
    by (auto simp: packAtlases_def)
next
  assume a: "tasks \<noteq> [] \<and> maxSize \<noteq> 0 \<and>
      (\<forall>t \<in> set tasks. targetWidth t > maxSize \<or> targetHeight t > maxSize)"
  then have "sortedTasks tasks \<noteq> []" and "\<forall>t \<in> set (sortedTasks tasks). oversized maxSize t"
    by (simp_all add: oversized_def)
  then have "packAtlases tasks maxSize padding = [buildPage 0 maxSize []]"
    by (simp add: packAtlases_def packAtlases_loop_all_oversized)
  moreover have "buildPage 0 maxSize []
      = \<lparr>page_id = 0, page_width = maxSize, page_height = maxSize, page_items = [],
          page_efficiency = Num 0\<rparr>"
    using a by (simp add: buildPage_def)
  ultimately show "packAtlases tasks maxSize padding
      = [\<lparr>page_id = 0, page_width = maxSize, page_height = maxSize, page_items = [],
          page_efficiency = Num 0\<rparr>]"
    by simp
qed

theorem packAtlases_empty_and_nonempty_witness:
  "packAtlases [\<lparr>task_id = ''big'', targetWidth = 2049, targetHeight = 100\<rparr>] 2048 2
     = [\<lparr>page_id = 0, page_width = 2048, page_height = 2048, page_items = [],
         page_efficiency = Num 0\<rparr>]
   \<and> packAtlases [\<lparr>task_id = ''big'', targetWidth = 2049, targetHeight = 100\<rparr>] 2048 2 \<noteq> []"
  using packAtlases_empty_and_nonempty
    [of 2048 2 "[\<lparr>task_id = ''big'', targetWidth = 2049, targetHeight = 100\<rparr>]"]
  by simp


end
